theory Spec2Isabelle
  imports Complex_Main
begin

section \<open>Python strings\<close>

text \<open>
  A Python \<open>str\<close> is a sequence of Unicode code points. The rupee sign is the single
  code point U+20B9, so a string is modelled as a list of code points and not as a list
  of bytes. \<open>str\<close> embeds an ASCII literal.
\<close>

type_synonym pystr = "nat list"

definition str :: "string \<Rightarrow> pystr" where
  "str s = map of_char s"

text \<open>The code points for which \<open>str.isspace\<close> holds; \<open>str.strip()\<close> removes them
  from both ends.\<close>

definition isspace :: "nat \<Rightarrow> bool" where
  "isspace c \<longleftrightarrow>
     (9 \<le> c \<and> c \<le> 13) \<or> (28 \<le> c \<and> c \<le> 32) \<or> c = 133 \<or> c = 160 \<or> c = 5760 \<or>
     (8192 \<le> c \<and> c \<le> 8202) \<or> c = 8232 \<or> c = 8233 \<or> c = 8239 \<or> c = 8287 \<or> c = 12288"

definition strip :: "pystr \<Rightarrow> pystr" where
  "strip s = rev (dropWhile isspace (rev (dropWhile isspace s)))"

text \<open>\<open>s.replace(c, '')\<close> for a one-character string \<open>c\<close>: every occurrence of the
  code point is removed.\<close>

definition replace_empty :: "nat \<Rightarrow> pystr \<Rightarrow> pystr" where
  "replace_empty c s = filter (\<lambda>x. x \<noteq> c) s"

definition dollar :: nat where "dollar = 36"
definition rupee :: nat where "rupee = 8377"
definition comma :: nat where "comma = 44"


section \<open>Python floats: IEEE 754 binary64\<close>

text \<open>
  A float is a sign with a magnitude, an infinity with a sign, or NaN. The magnitude of a
  finite float is kept as the rational number it denotes; \<open>round_mag\<close> is rounding to
  the nearest binary64 magnitude, ties to even, with 53 significant bits and the
  smallest exponent \<open>-1074\<close>. The sign is \<open>True\<close> for negative.
\<close>

datatype float64 = Finite bool rat | Infinity bool | NaN

fun bits :: "nat \<Rightarrow> nat" where
  "bits n = (if n = 0 then 0 else Suc (bits (n div 2)))"

declare bits.simps [simp del]

definition pow2 :: "int \<Rightarrow> rat" where
  "pow2 e = 2 powi e"

text \<open>\<open>ilog2 q\<close> is the integer \<open>k\<close> with \<open>2^k \<le> q < 2^(k+1)\<close>, for positive \<open>q\<close>.\<close>

definition ilog2 :: "rat \<Rightarrow> int" where
  "ilog2 q = (if 1 \<le> q then int (bits (nat \<lfloor>q\<rfloor>)) - 1
              else - int (bits (nat (\<lceil>1 / q\<rceil> - 1))))"

definition round_even :: "rat \<Rightarrow> int" where
  "round_even x =
     (let f = \<lfloor>x\<rfloor>; d = x - of_int f
      in if d < 1 / 2 then f
         else if 1 / 2 < d then f + 1
         else if even f then f else f + 1)"

definition round_mag :: "rat \<Rightarrow> rat" where
  "round_mag q =
     (if q \<le> 0 then 0
      else let e = max (ilog2 q - 52) (- 1074)
           in of_int (round_even (q / pow2 e)) * pow2 e)"

text \<open>A rounded magnitude of \<open>2^1024\<close> or more overflows to infinity.\<close>

definition mk_float :: "bool \<Rightarrow> rat \<Rightarrow> float64" where
  "mk_float s q = (let m = round_mag q in if pow2 1024 \<le> m then Infinity s else Finite s m)"

text \<open>A magnitude is a binary64 magnitude when rounding leaves it as it is.\<close>

definition is_b64 :: "rat \<Rightarrow> bool" where
  "is_b64 q \<longleftrightarrow> 0 \<le> q \<and> q < pow2 1024 \<and> round_mag q = q"

text \<open>IEEE multiplication and division: the exact result, rounded.\<close>

fun fmul :: "float64 \<Rightarrow> float64 \<Rightarrow> float64" where
  "fmul NaN y = NaN"
| "fmul x NaN = NaN"
| "fmul (Infinity s) (Infinity t) = Infinity (s \<noteq> t)"
| "fmul (Infinity s) (Finite t q) = (if q = 0 then NaN else Infinity (s \<noteq> t))"
| "fmul (Finite s p) (Infinity t) = (if p = 0 then NaN else Infinity (s \<noteq> t))"
| "fmul (Finite s p) (Finite t q) = mk_float (s \<noteq> t) (p * q)"

fun fdiv :: "float64 \<Rightarrow> float64 \<Rightarrow> float64" where
  "fdiv NaN y = NaN"
| "fdiv x NaN = NaN"
| "fdiv (Infinity s) (Infinity t) = NaN"
| "fdiv (Infinity s) (Finite t q) = Infinity (s \<noteq> t)"
| "fdiv (Finite s p) (Infinity t) = Finite (s \<noteq> t) 0"
| "fdiv (Finite s p) (Finite t q) =
     (if q = 0 then (if p = 0 then NaN else Infinity (s \<noteq> t))
      else mk_float (s \<noteq> t) (p / q))"

text \<open>A decimal literal of the source, such as \<open>82.5\<close>, denotes the nearest float.\<close>

definition lit :: "rat \<Rightarrow> float64" where
  "lit q = mk_float False q"

definition float_of_int :: "int \<Rightarrow> float64" where
  "float_of_int n = mk_float (n < 0) (of_int \<bar>n\<bar>)"


section \<open>Cells\<close>

text \<open>
  A cell of the uploaded table holds a string, a float (a missing cell is the float NaN,
  as the pandas readers produce it), an integer or a timestamp.
\<close>

record timestamp =
  ts_year :: int
  ts_month :: nat
  ts_day :: nat
  ts_nanos :: nat

datatype pyval = VStr pystr | VFloat float64 | VInt int | VTime timestamp

datatype error = ValueError | TypeError | AttributeError | OverflowError


section \<open>Helper functions of the script\<close>

text \<open>
  \<^verbatim>\<open>
  def clean_currency(value):
      if isinstance(value, str):
          return float(value.replace('$', '').replace('\u20b9', '').replace(',', '').strip())
      return value
  \<close>
  The builtin \<open>float\<close> is the parameter \<open>flt\<close>: \<open>None\<close> is the \<open>ValueError\<close> it
  raises on a string that is not a float literal.
\<close>

fun clean_currency :: "(pystr \<Rightarrow> float64 option) \<Rightarrow> pyval \<Rightarrow> error + pyval" where
  "clean_currency flt (VStr s) =
     (case flt (strip (replace_empty comma (replace_empty rupee (replace_empty dollar s)))) of
        None \<Rightarrow> Inl ValueError
      | Some d \<Rightarrow> Inr (VFloat d))"
| "clean_currency flt v = Inr v"

text \<open>
  \<^verbatim>\<open>
  def get_ibr_rate(date):
      year = date.year
      rates = {2021: 74.1, 2022: 78.6, 2023: 82.5, 2024: 83.4, 2025: 84.5}
      return rates.get(year, 83.0)
  \<close>
\<close>

definition rates :: "(int \<times> float64) list" where
  "rates = [(2021, lit (741 / 10)), (2022, lit (786 / 10)), (2023, lit (825 / 10)),
            (2024, lit (834 / 10)), (2025, lit (845 / 10))]"

definition get_ibr_rate :: "timestamp \<Rightarrow> float64" where
  "get_ibr_rate date =
     (let year = ts_year date
      in case map_of rates year of Some r \<Rightarrow> r | None \<Rightarrow> lit 83)"


section \<open>The uploaded table\<close>

text \<open>
  The table is the DataFrame \<open>df\<close>: its column labels and its rows. A row holds the
  cells of the columns the script refers to, each under its label with surrounding
  whitespace removed; the model covers the tables that have these columns.
\<close>

record row =
  order_date :: pyval
  category :: pyval
  sales_per :: pyval
  profit :: pyval
  segment :: pyval
  state :: pyval
  quantity :: pyval
  order_id :: pyval
  customer_id :: pyval

record table =
  columns :: "pystr list"
  rows :: "row list"

text \<open>\<open>df[label] = column\<close>: the cell is replaced in every row.\<close>

definition setitem :: "((pyval \<Rightarrow> pyval) \<Rightarrow> row \<Rightarrow> row) \<Rightarrow> row list \<Rightarrow> pyval list \<Rightarrow> row list" where
  "setitem upd df col = map2 (\<lambda>r v. upd (\<lambda>_. v) r) df col"

definition isna :: "pyval \<Rightarrow> bool" where
  "isna v \<longleftrightarrow> v = VFloat NaN"

definition fillna :: "pyval \<Rightarrow> pyval list \<Rightarrow> pyval list" where
  "fillna fill col = map (\<lambda>v. if isna v then fill else v) col"

text \<open>\<open>Series.apply(f)\<close>: the first call that raises aborts the whole column.\<close>

fun apply_series :: "('a \<Rightarrow> error + 'b) \<Rightarrow> 'a list \<Rightarrow> error + 'b list" where
  "apply_series f [] = Inr []"
| "apply_series f (x # xs) =
     (case f x of
        Inl e \<Rightarrow> Inl e
      | Inr y \<Rightarrow> (case apply_series f xs of Inl e \<Rightarrow> Inl e | Inr ys \<Rightarrow> Inr (y # ys)))"

text \<open>
  \<open>pd.to_datetime(column, errors='coerce')\<close> followed by \<open>dropna(subset=['Order Date'])\<close>:
  a row whose date did not parse (\<open>None\<close>, pandas' NaT) is dropped, the others keep
  their order and hold the timestamp.
\<close>

fun dropna_dates :: "row list \<Rightarrow> timestamp option list \<Rightarrow> row list" where
  "dropna_dates (r # rs) (Some t # ds) = r\<lparr>order_date := VTime t\<rparr> # dropna_dates rs ds"
| "dropna_dates (r # rs) (None # ds) = dropna_dates rs ds"
| "dropna_dates rs ds = []"

definition uncategorized :: pyval where
  "uncategorized = VStr (str ''Uncategorized'')"

text \<open>The fill value \<open>0\<close> of \<open>Sales Per\<close>, as the float column stores it.\<close>

definition zero :: pyval where
  "zero = VFloat (Finite False 0)"


section \<open>The cleaning pipeline\<close>

text \<open>
  Lines 41 to 53 of the script, the normalization stage. \<open>to_datetime\<close> is the pandas
  date parser, a parameter: it gets the whole column, from which pandas may infer a
  format, and the cell, and returns the timestamp or \<open>None\<close> where pandas coerces to NaT.
  \<^verbatim>\<open>
  df.columns = df.columns.str.strip()
  df['Category'] = df['Category'].fillna('Uncategorized')
  df['Sales Per'] = df['Sales Per'].fillna(0)
  df['Sales Per'] = df['Sales Per'].apply(clean_currency)
  df['Profit'] = df['Profit'].apply(clean_currency)
  df['Order Date'] = pd.to_datetime(df['Order Date'], errors='coerce')
  df = df.dropna(subset=['Order Date'])
  \<close>
\<close>

definition normalize ::
  "(pystr \<Rightarrow> float64 option) \<Rightarrow> (pyval list \<Rightarrow> pyval \<Rightarrow> timestamp option) \<Rightarrow> table \<Rightarrow> error + table" where
  "normalize flt to_datetime tbl =
     (let cols = map strip (columns tbl);
          df = rows tbl;
          df = setitem category_update df (fillna uncategorized (map category df));
          df = setitem sales_per_update df (fillna zero (map sales_per df))
      in case apply_series (clean_currency flt) (map sales_per df) of
           Inl e \<Rightarrow> Inl e
         | Inr sales \<Rightarrow>
             (let df = setitem sales_per_update df sales
              in case apply_series (clean_currency flt) (map profit df) of
                   Inl e \<Rightarrow> Inl e
                 | Inr profits \<Rightarrow>
                     (let df = setitem profit_update df profits;
                          dates = map (to_datetime (map order_date df)) (map order_date df);
                          df = dropna_dates df dates
                      in Inr \<lparr>columns = cols, rows = df\<rparr>)))"

text \<open>
  Lines 56 to 65, the conversion. An enriched row is the normalized row with the
  derived columns.
  \<^verbatim>\<open>
  df['IBR_Rate'] = df['Order Date'].apply(get_ibr_rate)
  df['Sales_USD'] = df['Sales Per']
  df['Profit_USD'] = df['Profit']
  df['Sales_INR'] = df['Sales_USD'] * df['IBR_Rate']
  df['Profit_INR'] = df['Profit_USD'] * df['IBR_Rate']
  df['YearMonth'] = df['Order Date'].dt.to_period('M').astype(str)
  \<close>
\<close>

record erow =
  base :: row
  ibr_rate :: float64
  sales_usd :: pyval
  profit_usd :: pyval
  sales_inr :: float64
  profit_inr :: float64
  year_month :: pystr

text \<open>Only a timestamp has the attribute \<open>year\<close> and a monthly period.\<close>

fun as_timestamp :: "pyval \<Rightarrow> error + timestamp" where
  "as_timestamp (VTime t) = Inr t"
| "as_timestamp v = Inl AttributeError"

definition ibr_of :: "pyval \<Rightarrow> error + float64" where
  "ibr_of v = (case as_timestamp v of Inl e \<Rightarrow> Inl e | Inr t \<Rightarrow> Inr (get_ibr_rate t))"

text \<open>
  The product of a cell and a rate. A float is multiplied as it is, an integer is
  converted to a float first (Python raises \<open>OverflowError\<close> when it is too large), a
  string or a timestamp times a float raises \<open>TypeError\<close>.
\<close>

fun py_mul :: "pyval \<Rightarrow> float64 \<Rightarrow> error + float64" where
  "py_mul (VFloat x) k = Inr (fmul x k)"
| "py_mul (VInt n) k =
     (case float_of_int n of Infinity s \<Rightarrow> Inl OverflowError | x \<Rightarrow> Inr (fmul x k))"
| "py_mul (VStr s) k = Inl TypeError"
| "py_mul (VTime t) k = Inl TypeError"

definition mul_series :: "pyval list \<Rightarrow> float64 list \<Rightarrow> error + float64 list" where
  "mul_series xs ks = apply_series (\<lambda>(x, k). py_mul x k) (zip xs ks)"

text \<open>The period of a timestamp as text, \<open>YYYY-MM\<close>; a timestamp has a four-digit year.\<close>

definition zfill2 :: "nat \<Rightarrow> pystr" where
  "zfill2 n = [48 + n div 10 mod 10, 48 + n mod 10]"

definition zfill4 :: "nat \<Rightarrow> pystr" where
  "zfill4 n = [48 + n div 1000 mod 10, 48 + n div 100 mod 10, 48 + n div 10 mod 10, 48 + n mod 10]"

definition period_str :: "timestamp \<Rightarrow> pystr" where
  "period_str t = zfill4 (nat (ts_year t)) @ [45] @ zfill2 (ts_month t)"

definition year_month_of :: "pyval \<Rightarrow> error + pystr" where
  "year_month_of v = (case as_timestamp v of Inl e \<Rightarrow> Inl e | Inr t \<Rightarrow> Inr (period_str t))"

definition assemble ::
  "row list \<Rightarrow> float64 list \<Rightarrow> pyval list \<Rightarrow> pyval list \<Rightarrow> float64 list \<Rightarrow> float64 list \<Rightarrow> pystr list
     \<Rightarrow> erow list" where
  "assemble df rate susd pusd sinr pinr ym =
     map (\<lambda>i. \<lparr>base = df ! i, ibr_rate = rate ! i, sales_usd = susd ! i, profit_usd = pusd ! i,
               sales_inr = sinr ! i, profit_inr = pinr ! i, year_month = ym ! i\<rparr>)
         [0..<length df]"

definition enrich :: "row list \<Rightarrow> error + erow list" where
  "enrich df =
     (case apply_series ibr_of (map order_date df) of
        Inl e \<Rightarrow> Inl e
      | Inr rate \<Rightarrow>
          (let susd = map sales_per df;
               pusd = map profit df
           in case mul_series susd rate of
                Inl e \<Rightarrow> Inl e
              | Inr sinr \<Rightarrow>
                  (case mul_series pusd rate of
                     Inl e \<Rightarrow> Inl e
                   | Inr pinr \<Rightarrow>
                       (case apply_series year_month_of (map order_date df) of
                          Inl e \<Rightarrow> Inl e
                        | Inr ym \<Rightarrow> Inr (assemble df rate susd pusd sinr pinr ym)))))"

definition cleaning_pipeline ::
  "(pystr \<Rightarrow> float64 option) \<Rightarrow> (pyval list \<Rightarrow> pyval \<Rightarrow> timestamp option) \<Rightarrow> table \<Rightarrow> error + erow list" where
  "cleaning_pipeline flt to_datetime tbl =
     (case normalize flt to_datetime tbl of
        Inl e \<Rightarrow> Inl e
      | Inr t \<Rightarrow> enrich (rows t))"


section \<open>The run\<close>

text \<open>
  The body of \<open>try\<close>, up to what reaches the operator and the report: the number of
  records of the success notice (line 67), the exported records (lines 71 and 72) and
  the total of \<open>Quantity\<close> (line 109). \<open>Inl\<close> is the exception that the handler of
  line 160 turns into the error notice. \<open>series_sum\<close> is \<open>Series.sum\<close> of pandas, a
  parameter.
\<close>

definition to_dict :: "erow \<Rightarrow> (string \<times> pyval) list" where
  "to_dict e =
     [(''YearMonth'', VStr (year_month e)), (''Category'', category (base e)),
      (''Segment'', segment (base e)), (''State'', state (base e)),
      (''Sales_INR'', VFloat (sales_inr e)), (''Sales_USD'', sales_usd e),
      (''Profit_INR'', VFloat (profit_inr e)), (''Profit_USD'', profit_usd e),
      (''Quantity'', quantity (base e)), (''Order ID'', order_id (base e)),
      (''Customer ID'', customer_id (base e)), (''IBR_Rate'', VFloat (ibr_rate e))]"

record report =
  processed :: nat
  records :: "(string \<times> pyval) list list"
  items_sold :: pyval

definition run ::
  "(pystr \<Rightarrow> float64 option) \<Rightarrow> (pyval list \<Rightarrow> pyval \<Rightarrow> timestamp option) \<Rightarrow>
   (pyval list \<Rightarrow> error + pyval) \<Rightarrow> table \<Rightarrow> error + report" where
  "run flt to_datetime series_sum tbl =
     (case cleaning_pipeline flt to_datetime tbl of
        Inl e \<Rightarrow> Inl e
      | Inr df \<Rightarrow>
          (let n = length df;
               recs = map to_dict df
           in case series_sum (map (\<lambda>e. quantity (base e)) df) of
                Inl e \<Rightarrow> Inl e
              | Inr qty \<Rightarrow> Inr \<lparr>processed = n, records = recs, items_sold = qty\<rparr>))"


section \<open>Library functions for the examples\<close>

text \<open>
  The builtin \<open>float\<close> on a string, for ASCII text: surrounding whitespace is ignored,
  then a sign, then \<open>inf\<close>, \<open>infinity\<close> or \<open>nan\<close> in any case, or a decimal number with
  an optional fraction and exponent, where single underscores may separate digits. The
  value is the nearest float. \<open>None\<close> is \<open>ValueError\<close>.
\<close>

definition is_digit :: "nat \<Rightarrow> bool" where
  "is_digit c \<longleftrightarrow> 48 \<le> c \<and> c \<le> 57"

definition digit_or_underscore :: "nat \<Rightarrow> bool" where
  "digit_or_underscore c \<longleftrightarrow> is_digit c \<or> c = 95"

fun digitpart_ok :: "pystr \<Rightarrow> bool" where
  "digitpart_ok [] = False"
| "digitpart_ok [c] = is_digit c"
| "digitpart_ok (c # d # cs) =
     (is_digit c \<and> (if d = 95 then digitpart_ok cs else digitpart_ok (d # cs)))"

definition digits_value :: "pystr \<Rightarrow> nat" where
  "digits_value ds = foldl (\<lambda>a c. 10 * a + (c - 48)) 0 (filter is_digit ds)"

definition lower :: "nat \<Rightarrow> nat" where
  "lower c = (if 65 \<le> c \<and> c \<le> 90 then c + 32 else c)"

definition take_sign :: "pystr \<Rightarrow> bool \<times> pystr" where
  "take_sign s =
     (case s of
        [] \<Rightarrow> (False, [])
      | c # cs \<Rightarrow> if c = 45 then (True, cs) else if c = 43 then (False, cs) else (False, s))"

definition parse_exponent :: "pystr \<Rightarrow> int option" where
  "parse_exponent r =
     (case r of
        [] \<Rightarrow> Some 0
      | c # cs \<Rightarrow>
          if c = 101 \<or> c = 69 then
            (let (neg, ds) = take_sign cs
             in if digitpart_ok ds
                then Some (if neg then - int (digits_value ds) else int (digits_value ds))
                else None)
          else None)"

definition parse_number :: "pystr \<Rightarrow> rat option" where
  "parse_number s =
     (let ip = takeWhile digit_or_underscore s;
          r1 = dropWhile digit_or_underscore s;
          dot = (r1 \<noteq> [] \<and> hd r1 = 46);
          fp = (if dot then takeWhile digit_or_underscore (tl r1) else []);
          r2 = (if dot then dropWhile digit_or_underscore (tl r1) else r1)
      in if (ip = [] \<or> digitpart_ok ip) \<and> (fp = [] \<or> digitpart_ok fp) \<and> (ip \<noteq> [] \<or> fp \<noteq> [])
         then (case parse_exponent r2 of
                 None \<Rightarrow> None
               | Some e \<Rightarrow>
                   Some (of_nat (digits_value (ip @ fp)) * 10 powi (e - int (length (filter is_digit fp)))))
         else None)"

definition py_float :: "pystr \<Rightarrow> float64 option" where
  "py_float s =
     (let (neg, body) = take_sign (strip s);
          low = map lower body
      in if low = str ''inf'' \<or> low = str ''infinity'' then Some (Infinity neg)
         else if low = str ''nan'' then Some NaN
         else (case parse_number body of None \<Rightarrow> None | Some q \<Rightarrow> Some (mk_float neg q)))"

text \<open>
  A date parser for the examples: it takes a timestamp as it is and an ISO calendar date
  \<open>YYYY-MM-DD\<close> within the range of pandas timestamps, and coerces every other cell to NaT.
\<close>

definition days_in_month :: "nat \<Rightarrow> nat \<Rightarrow> nat" where
  "days_in_month y m =
     (if m = 2 then (if y mod 4 = 0 \<and> (y mod 100 \<noteq> 0 \<or> y mod 400 = 0) then 29 else 28)
      else if m = 4 \<or> m = 6 \<or> m = 9 \<or> m = 11 then 30 else 31)"

definition iso_date :: "pystr \<Rightarrow> timestamp option" where
  "iso_date s =
     (if length s = 10 \<and> s ! 4 = 45 \<and> s ! 7 = 45 \<and>
         list_all is_digit (take 4 s @ take 2 (drop 5 s) @ drop 8 s)
      then (let y = digits_value (take 4 s);
                m = digits_value (take 2 (drop 5 s));
                d = digits_value (drop 8 s)
            in if 1677 < y \<and> y < 2262 \<and> 1 \<le> m \<and> m \<le> 12 \<and> 1 \<le> d \<and> d \<le> days_in_month y m
               then Some \<lparr>ts_year = int y, ts_month = m, ts_day = d, ts_nanos = 0\<rparr>
               else None)
      else None)"

fun iso_to_datetime :: "pyval list \<Rightarrow> pyval \<Rightarrow> timestamp option" where
  "iso_to_datetime col (VTime t) = Some t"
| "iso_to_datetime col (VStr s) = iso_date s"
| "iso_to_datetime col v = None"

text \<open>
  \<open>Series.sum\<close> for the examples, on a column of integers: the sum in 64 bits, which
  wraps around.
\<close>

fun int_cells :: "pyval list \<Rightarrow> int list option" where
  "int_cells [] = Some []"
| "int_cells (VInt n # vs) = (case int_cells vs of None \<Rightarrow> None | Some ns \<Rightarrow> Some (n # ns))"
| "int_cells (v # vs) = None"

definition wrap64 :: "int \<Rightarrow> int" where
  "wrap64 n = (n + 2 ^ 63) mod 2 ^ 64 - 2 ^ 63"

definition int_sum :: "pyval list \<Rightarrow> error + pyval" where
  "int_sum col =
     (case int_cells col of
        None \<Rightarrow> Inl TypeError
      | Some ns \<Rightarrow> Inr (VInt (wrap64 (sum_list ns))))"


section \<open>Notions of the specification\<close>

text \<open>The residual string that \<open>clean_currency\<close> hands to \<open>float\<close>.\<close>

definition residual :: "pystr \<Rightarrow> pystr" where
  "residual s = strip (replace_empty comma (replace_empty rupee (replace_empty dollar s)))"

text \<open>A string without currency symbols and thousands separators.\<close>

definition symbol_free :: "pystr \<Rightarrow> pystr" where
  "symbol_free s = filter (\<lambda>c. c \<noteq> dollar \<and> c \<noteq> rupee \<and> c \<noteq> comma) s"

text \<open>
  Relative tolerance \<open>1e-9\<close> between the quotient, a float, and the amount in dollars, a
  float or an integer: equal infinities are close, NaN is close to nothing.
\<close>

definition signed :: "bool \<Rightarrow> rat \<Rightarrow> rat" where
  "signed s a = (if s then - a else a)"

definition rel_close :: "rat \<Rightarrow> rat \<Rightarrow> bool" where
  "rel_close a b \<longleftrightarrow> \<bar>a - b\<bar> \<le> max \<bar>a\<bar> \<bar>b\<bar> / 10 ^ 9"

fun isclose :: "float64 \<Rightarrow> pyval \<Rightarrow> bool" where
  "isclose (Finite s a) (VFloat (Finite t b)) = rel_close (signed s a) (signed t b)"
| "isclose (Finite s a) (VInt n) = rel_close (signed s a) (of_int n)"
| "isclose (Infinity s) (VFloat (Infinity t)) = (s = t)"
| "isclose x v = False"

text \<open>
  A finite float, and a cell that, when it holds a finite float, holds a binary64 one:
  every float that Python computes is such a cell.
\<close>

fun is_finite :: "float64 \<Rightarrow> bool" where
  "is_finite (Finite s q) = True"
| "is_finite x = False"

fun b64_cell :: "pyval \<Rightarrow> bool" where
  "b64_cell (VFloat (Finite s q)) = is_b64 q"
| "b64_cell v = True"



text \<open>
  The two stages seen row by row: what normalization makes of the cells of one row
  before the dates are parsed, and what the conversion makes of one normalized row.
\<close>

definition clean_row :: "(pystr \<Rightarrow> float64 option) \<Rightarrow> row \<Rightarrow> error + row" where
  "clean_row flt r =
     (case clean_currency flt (if isna (sales_per r) then zero else sales_per r) of
        Inl e \<Rightarrow> Inl e
      | Inr s \<Rightarrow>
          (case clean_currency flt (profit r) of
             Inl e \<Rightarrow> Inl e
           | Inr p \<Rightarrow>
               Inr (r\<lparr>category := if isna (category r) then uncategorized else category r,
                       sales_per := s, profit := p\<rparr>)))"

definition enrich_row :: "row \<Rightarrow> error + erow" where
  "enrich_row r =
     (case ibr_of (order_date r) of
        Inl e \<Rightarrow> Inl e
      | Inr k \<Rightarrow>
          (case py_mul (sales_per r) k of
             Inl e \<Rightarrow> Inl e
           | Inr sinr \<Rightarrow>
               (case py_mul (profit r) k of
                  Inl e \<Rightarrow> Inl e
                | Inr pinr \<Rightarrow>
                    (case year_month_of (order_date r) of
                       Inl e \<Rightarrow> Inl e
                     | Inr ym \<Rightarrow>
                         Inr \<lparr>base = r, ibr_rate = k, sales_usd = sales_per r,
                              profit_usd = profit r, sales_inr = sinr, profit_inr = pinr,
                              year_month = ym\<rparr>))))"

text \<open>The parsed dates of the table: \<open>None\<close> where the date of a row does not parse.\<close>

definition date_column :: "(pyval list \<Rightarrow> pyval \<Rightarrow> timestamp option) \<Rightarrow> table \<Rightarrow> timestamp option list" where
  "date_column dt tbl = map (dt (map order_date (rows tbl))) (map order_date (rows tbl))"


section \<open>Example tables\<close>

text \<open>The row of the scenario of the specification, with the cells the scenario leaves
  open filled in, under a header with padded labels.\<close>

definition header :: "pystr list" where
  "header = map str ['' Order Date'', ''Category'', ''Sales Per '', ''Profit'', ''Segment'',
                     ''State'', ''Quantity'', ''Order ID'', ''Customer ID'']"

definition scenario :: row where
  "scenario =
     \<lparr>order_date = VStr (str ''2023-06-15''), category = VFloat NaN,
      sales_per = VStr (str ''$100''), profit = VStr (str ''$20''),
      segment = VStr (str ''Consumer''), state = VStr (str ''Kerala''), quantity = VInt 2,
      order_id = VStr (str ''A1''), customer_id = VStr (str ''K7'')\<rparr>"

definition june15 :: timestamp where
  "june15 = \<lparr>ts_year = 2023, ts_month = 6, ts_day = 15, ts_nanos = 0\<rparr>"

definition scenario_normalized :: row where
  "scenario_normalized =
     \<lparr>order_date = VTime june15, category = VStr (str ''Uncategorized''),
      sales_per = VFloat (Finite False 100), profit = VFloat (Finite False 20),
      segment = VStr (str ''Consumer''), state = VStr (str ''Kerala''), quantity = VInt 2,
      order_id = VStr (str ''A1''), customer_id = VStr (str ''K7'')\<rparr>"

definition scenario_enriched :: erow where
  "scenario_enriched =
     \<lparr>base = scenario_normalized, ibr_rate = Finite False (165 / 2),
      sales_usd = VFloat (Finite False 100), profit_usd = VFloat (Finite False 20),
      sales_inr = Finite False 8250, profit_inr = Finite False 1650,
      year_month = str ''2023-06''\<rparr>"

text \<open>A second row, whose date does not parse, and what the run yields for the scenario.\<close>

definition undated :: row where
  "undated = scenario\<lparr>order_date := VStr (str ''not-a-date''), order_id := VStr (str ''A2'')\<rparr>"

definition scenario_report :: report where
  "scenario_report = \<lparr>processed = 1, records = [to_dict scenario_enriched], items_sold = VInt 2\<rparr>"

text \<open>A row whose Sales Per is the float \<open>2^1023\<close>, and what the conversion makes of it.\<close>

definition overflow_row :: row where
  "overflow_row = scenario\<lparr>sales_per := VFloat (Finite False (pow2 1023))\<rparr>"

definition overflow_enriched :: erow where
  "overflow_enriched =
     scenario_enriched\<lparr>base := scenario_normalized\<lparr>sales_per := VFloat (Finite False (pow2 1023))\<rparr>,
                       sales_usd := VFloat (Finite False (pow2 1023)),
                       sales_inr := Infinity False\<rparr>"


section \<open>Properties\<close>

subsection \<open>Powers of two\<close>

lemma pow2_pos [simp]: "0 < pow2 e"
  by (simp add: pow2_def zero_less_power_int)

lemma pow2_nonneg [simp]: "0 \<le> pow2 e"
  by (rule less_imp_le) simp

lemma pow2_neq0 [simp]: "pow2 e \<noteq> 0"
  using pow2_pos [of e] by linarith

lemma pow2_add: "pow2 (a + b) = pow2 a * pow2 b"
  by (simp add: pow2_def power_int_add)

lemma pow2_diff: "pow2 (a - b) = pow2 a / pow2 b"
  by (simp add: pow2_def power_int_diff)

lemma pow2_0 [simp]: "pow2 0 = 1"
  by (simp add: pow2_def)

lemma pow2_int: "pow2 (int n) = 2 ^ n"
  by (simp add: pow2_def)

lemma pow2_neg: "pow2 (- e) = 1 / pow2 e"
  by (simp add: pow2_def power_int_minus_divide)

lemma pow2_mono: "a \<le> b \<Longrightarrow> pow2 a \<le> pow2 b"
  by (simp add: pow2_def power_int_increasing)

lemma pow2_strict_mono: "a < b \<Longrightarrow> pow2 a < pow2 b"
  by (simp add: pow2_def power_int_strict_increasing)

lemma pow2_le_iff: "pow2 a \<le> pow2 b \<longleftrightarrow> a \<le> b"
  by (metis pow2_mono pow2_strict_mono not_le)

lemma pow2_less_iff: "pow2 a < pow2 b \<longleftrightarrow> a < b"
  by (metis pow2_mono pow2_strict_mono not_le)

lemma pow2_1 [simp]: "pow2 1 = 2"
  by (simp add: pow2_def)

lemma pow2_Suc: "pow2 (e + 1) = 2 * pow2 e"
  by (simp add: pow2_add)

subsection \<open>Bit length\<close>

lemma bits_0 [simp]: "bits 0 = 0"
  by (simp add: bits.simps)

lemma bits_Suc0 [simp]: "bits (Suc 0) = 1"
  by (subst bits.simps) simp

lemma bits_1 [simp]: "bits 1 = 1"
  by (subst bits.simps) simp

lemma bits_Bit0 [simp]: "bits (numeral (Num.Bit0 n)) = bits (numeral n) + 1"
  by (subst bits.simps) simp

lemma bits_Bit1 [simp]: "bits (numeral (Num.Bit1 n)) = bits (numeral n) + 1"
  by (subst bits.simps) (simp add: numeral_Bit1_div_2)

lemma bits_bounds: "0 < n \<Longrightarrow> 2 ^ (bits n - 1) \<le> n \<and> n < 2 ^ bits n"
proof (induction n rule: bits.induct)
  case (1 n)
  show ?case
  proof (cases "n div 2 = 0")
    case True
    with "1.prems" have "n = 1" by (simp add: div_eq_0_iff) 
    then show ?thesis by simp
  next
    case False
    from "1.prems" have n0: "n \<noteq> 0" by simp
    from False have pos: "0 < n div 2" by simp
    define b where "b = bits (n div 2)"
    from "1.IH" [OF n0 pos] have lo: "2 ^ (b - 1) \<le> n div 2" and hi: "n div 2 < 2 ^ b"
      by (simp_all add: b_def)
    have bpos: "0 < b"
      using pos by (simp add: b_def bits.simps [of "n div 2"])
    have bn: "bits n = Suc b"
      using n0 by (simp add: b_def bits.simps [of n])
    have "(2::nat) ^ b = 2 * 2 ^ (b - 1)"
      using bpos by (cases b) simp_all
    with lo have "2 ^ b \<le> 2 * (n div 2)" by simp
    then have l: "2 ^ b \<le> n" by linarith
    from hi have "2 * (n div 2) + 2 \<le> 2 * 2 ^ b" by simp
    then have h: "n < 2 * 2 ^ b" by linarith
    from l h show ?thesis by (simp add: bn)
  qed
qed

lemma bits_pos: "0 < n \<Longrightarrow> 0 < bits n"
  by (simp add: bits.simps [of n])

subsection \<open>The binary exponent\<close>

lemma ilog2_bounds:
  assumes "0 < q"
  shows "pow2 (ilog2 q) \<le> q \<and> q < pow2 (ilog2 q + 1)"
proof (cases "1 \<le> q")
  case True
  define n where "n = nat \<lfloor>q\<rfloor>"
  have fl: "1 \<le> \<lfloor>q\<rfloor>" using True by (simp add: le_floor_iff)
  then have npos: "0 < n" by (simp add: n_def)
  have nq: "of_nat n \<le> q" and qn: "q < of_nat n + 1"
    using fl floor_correct [of q] by (simp_all add: n_def)
  from bits_bounds [OF npos] have lo: "2 ^ (bits n - 1) \<le> n" and hi: "n < 2 ^ bits n"
    by simp_all
  have il: "ilog2 q = int (bits n) - 1"
    using True by (simp add: ilog2_def n_def)
  have bp: "0 < bits n" using npos by (rule bits_pos)
  have "pow2 (int (bits n) - 1) = pow2 (int (bits n - 1))"
    using bp by (simp add: of_nat_diff)
  also have "\<dots> = 2 ^ (bits n - 1)" by (simp add: pow2_int)
  also have "\<dots> \<le> of_nat n" using lo by (metis of_nat_le_iff of_nat_numeral of_nat_power)
  finally have A: "pow2 (ilog2 q) \<le> q" using nq by (simp add: il)
  from hi have "n + 1 \<le> 2 ^ bits n" by simp
  then have "(of_nat (n + 1) :: rat) \<le> of_nat (2 ^ bits n)" by (simp only: of_nat_le_iff)
  then have "(of_nat n :: rat) + 1 \<le> 2 ^ bits n" by simp
  with qn have "q < 2 ^ bits n" by simp
  then have B: "q < pow2 (ilog2 q + 1)" by (simp add: il pow2_int)
  from A B show ?thesis ..
next
  case False
  define c where "c = \<lceil>1 / q\<rceil>"
  define n where "n = nat (c - 1)"
  from False assms have y1: "1 < 1 / q" by simp
  then have c2: "2 \<le> c" unfolding c_def by (simp add: le_ceiling_iff)
  have cy: "of_int c - 1 < 1 / q" and yc: "1 / q \<le> of_int c"
    unfolding c_def using ceiling_correct [of "1 / q"] by simp_all
  have npos: "0 < n" using c2 by (simp add: n_def)
  have nc: "(of_nat n :: rat) = of_int c - 1" using c2 by (simp add: n_def)
  from bits_bounds [OF npos] have lo: "2 ^ (bits n - 1) \<le> n" and hi: "n < 2 ^ bits n"
    by simp_all
  have bp: "0 < bits n" using npos by (rule bits_pos)
  have il: "ilog2 q = - int (bits n)"
    using False by (simp add: ilog2_def n_def c_def)
  from hi have "n + 1 \<le> 2 ^ bits n" by simp
  then have "(of_nat (n + 1) :: rat) \<le> of_nat (2 ^ bits n)" by (simp only: of_nat_le_iff)
  then have cb: "(of_int c :: rat) \<le> 2 ^ bits n" using nc by simp
  from yc cb have "1 / q \<le> 2 ^ bits n" by (rule order_trans)
  then have "1 \<le> 2 ^ bits n * q" using assms by (simp add: field_simps)
  then have A: "pow2 (ilog2 q) \<le> q"
    by (simp add: il pow2_neg pow2_int field_simps)
  have "(2::rat) ^ (bits n - 1) \<le> of_nat n"
    using lo by (metis of_nat_le_iff of_nat_numeral of_nat_power)
  with cy nc have "2 ^ (bits n - 1) < 1 / q" by simp
  then have "q < 1 / 2 ^ (bits n - 1)" using assms by (simp add: field_simps)
  moreover have "pow2 (ilog2 q + 1) = 1 / 2 ^ (bits n - 1)"
  proof -
    have "ilog2 q + 1 = - int (bits n - 1)" using bp by (simp add: il of_nat_diff)
    then show ?thesis by (simp add: pow2_neg pow2_int)
  qed
  ultimately have B: "q < pow2 (ilog2 q + 1)" by simp
  from A B show ?thesis ..
qed

lemma ilog2_unique:
  assumes "pow2 k \<le> q" "q < pow2 (k + 1)"
  shows "ilog2 q = k"
proof -
  have "0 < q" using assms(1) pow2_pos [of k] by linarith
  from ilog2_bounds [OF this] have a: "pow2 (ilog2 q) \<le> q" and b: "q < pow2 (ilog2 q + 1)"
    by simp_all
  from a assms(2) have "pow2 (ilog2 q) < pow2 (k + 1)" by linarith
  then have 1: "ilog2 q < k + 1" by (simp add: pow2_less_iff)
  from assms(1) b have "pow2 k < pow2 (ilog2 q + 1)" by linarith
  then have 2: "k < ilog2 q + 1" by (simp add: pow2_less_iff)
  from 1 2 show ?thesis by simp
qed

subsection \<open>Rounding to an integer\<close>

lemma round_even_of_int [simp]: "round_even (of_int n) = n"
  by (simp add: round_even_def)

lemma round_even_error: "\<bar>of_int (round_even x) - x\<bar> \<le> 1 / 2"
proof -
  have "of_int \<lfloor>x\<rfloor> \<le> x" "x < of_int \<lfloor>x\<rfloor> + 1"
    using floor_correct [of x] by simp_all
  then show ?thesis
    by (auto simp: round_even_def Let_def abs_le_iff)
qed

lemma round_even_nonneg: "0 \<le> x \<Longrightarrow> 0 \<le> round_even x"
  by (auto simp: round_even_def Let_def)

subsection \<open>Rounding to a binary64 magnitude\<close>

lemma round_mag_nonpos [simp]: "q \<le> 0 \<Longrightarrow> round_mag q = 0"
  by (simp add: round_mag_def)

lemma round_mag_pos:
  "0 < q \<Longrightarrow> round_mag q =
     of_int (round_even (q / pow2 (max (ilog2 q - 52) (- 1074)))) * pow2 (max (ilog2 q - 52) (- 1074))"
  by (simp add: round_mag_def Let_def)

lemma round_mag_nonneg: "0 \<le> round_mag q"
proof (cases "0 < q")
  case True
  then have "0 \<le> q / pow2 (max (ilog2 q - 52) (- 1074))" by simp
  then have "0 \<le> round_even (q / pow2 (max (ilog2 q - 52) (- 1074)))"
    by (rule round_even_nonneg)
  then show ?thesis using True by (simp add: round_mag_pos)
next
  case False
  then show ?thesis by simp
qed

lemma round_mag_exact:
  assumes "0 \<le> m" "m < 2 ^ 53" "- 1074 \<le> e"
  shows "round_mag (of_int m * pow2 e) = of_int m * pow2 e"
proof (cases "m = 0")
  case True
  then show ?thesis by simp
next
  case False
  define q where "q = of_int m * pow2 e"
  define E where "E = max (ilog2 q - 52) (- 1074)"
  from False assms(1) have mpos: "0 < m" by simp
  then have qpos: "0 < q" by (simp add: q_def)
  from ilog2_bounds [OF qpos] have "pow2 (ilog2 q) \<le> q" by simp
  also have "q < 2 ^ 53 * pow2 e"
  proof -
    have "(of_int m :: rat) < of_int (2 ^ 53)" using assms(2) by (simp only: of_int_less_iff)
    then show ?thesis by (simp add: q_def)
  qed
  also have "\<dots> = pow2 (53 + e)"
  proof -
    have "(2::rat) ^ 53 = pow2 53" by (simp add: pow2_def)
    then show ?thesis by (simp only: pow2_add)
  qed
  finally have "ilog2 q < 53 + e" by (simp add: pow2_less_iff)
  with assms(3) have Ee: "E \<le> e" by (simp add: E_def)
  have "q / pow2 E = of_int m * pow2 (e - E)" by (simp add: q_def pow2_diff)
  also have "pow2 (e - E) = of_int (2 ^ nat (e - E))"
    using Ee pow2_int [of "nat (e - E)"] by simp
  finally have "q / pow2 E = of_int (m * 2 ^ nat (e - E))" by simp
  then have "round_even (q / pow2 E) = m * 2 ^ nat (e - E)" by (simp only: round_even_of_int)
  then have "round_mag q = of_int (m * 2 ^ nat (e - E)) * pow2 E"
    using qpos by (simp add: round_mag_pos E_def)
  also have "\<dots> = q / pow2 E * pow2 E" using \<open>q / pow2 E = of_int (m * 2 ^ nat (e - E))\<close> by simp
  finally show ?thesis by (simp add: q_def)
qed

lemma round_mag_error:
  assumes "0 < q"
  shows "\<bar>round_mag q - q\<bar> \<le> max (q / 2 ^ 53) (pow2 (- 1075))"
proof -
  define E where "E = max (ilog2 q - 52) (- 1074)"
  define r where "r = round_even (q / pow2 E)"
  have rm: "round_mag q = of_int r * pow2 E"
    using assms by (simp add: round_mag_pos E_def r_def)
  have "\<bar>of_int r - q / pow2 E\<bar> \<le> 1 / 2" unfolding r_def by (rule round_even_error)
  then have "\<bar>of_int r - q / pow2 E\<bar> * pow2 E \<le> 1 / 2 * pow2 E"
    by (rule mult_right_mono) simp
  moreover have "\<bar>of_int r - q / pow2 E\<bar> * pow2 E = \<bar>of_int r * pow2 E - q\<bar>"
  proof -
    have "\<bar>of_int r - q / pow2 E\<bar> * pow2 E = \<bar>(of_int r - q / pow2 E) * pow2 E\<bar>"
      by (simp add: abs_mult)
    also have "(of_int r - q / pow2 E) * pow2 E = of_int r * pow2 E - q"
      by (simp add: algebra_simps)
    finally show ?thesis .
  qed
  moreover have "1 / 2 * pow2 E = pow2 (E - 1)" by (simp add: pow2_diff)
  ultimately have err: "\<bar>round_mag q - q\<bar> \<le> pow2 (E - 1)" by (simp add: rm)
  show ?thesis
  proof (cases "ilog2 q - 52 \<le> - 1074")
    case True
    then have "E = - 1074" by (simp add: E_def)
    with err have "\<bar>round_mag q - q\<bar> \<le> pow2 (- 1075)" by simp
    then show ?thesis by (rule max.coboundedI2)
  next
    case False
    then have "E = ilog2 q - 52" by (simp add: E_def)
    then have "pow2 (E - 1) = pow2 (ilog2 q) / 2 ^ 53"
      using pow2_diff [of "ilog2 q" 53] by (simp add: pow2_def)
    also have "\<dots> \<le> q / 2 ^ 53"
      using ilog2_bounds [OF assms] by (simp add: divide_right_mono)
    finally have "\<bar>round_mag q - q\<bar> \<le> q / 2 ^ 53" using err by (simp only: order_trans)
    then show ?thesis by (rule max.coboundedI1)
  qed
qed

lemma round_mag_grid: "\<exists>n. 0 \<le> n \<and> round_mag q = of_int n * pow2 (- 1074)"
proof (cases "0 < q")
  case False
  then have "round_mag q = of_int 0 * pow2 (- 1074)" by simp
  then show ?thesis by blast
next
  case True
  define E where "E = max (ilog2 q - 52) (- 1074)"
  define r where "r = round_even (q / pow2 E)"
  have rm: "round_mag q = of_int r * pow2 E"
    using True by (simp add: round_mag_pos E_def r_def)
  have "0 \<le> q / pow2 E" using True by simp
  then have r0: "0 \<le> r" unfolding r_def by (rule round_even_nonneg)
  have E: "- 1074 \<le> E" by (simp add: E_def)
  have "pow2 E = pow2 (E + 1074) * pow2 (- 1074)"
    using pow2_add [of "E + 1074" "- 1074"] by simp
  also have "pow2 (E + 1074) = of_int (2 ^ nat (E + 1074))"
    using E pow2_int [of "nat (E + 1074)"] by simp
  finally have "round_mag q = of_int (r * 2 ^ nat (E + 1074)) * pow2 (- 1074)"
    by (simp add: rm)
  moreover have "0 \<le> r * 2 ^ nat (E + 1074)" using r0 by simp
  ultimately show ?thesis by blast
qed

subsection \<open>Columns\<close>

lemma apply_series_Inr_I:
  "list_all2 (\<lambda>x y. f x = Inr y) xs ys \<Longrightarrow> apply_series f xs = Inr ys"
  by (induction xs ys rule: list_all2_induct) simp_all

lemma apply_series_Inr_D:
  "apply_series f xs = Inr ys \<Longrightarrow> list_all2 (\<lambda>x y. f x = Inr y) xs ys"
  by (induction xs arbitrary: ys) (auto split: sum.splits)

lemma apply_series_Inr_iff:
  "apply_series f xs = Inr ys \<longleftrightarrow> list_all2 (\<lambda>x y. f x = Inr y) xs ys"
  using apply_series_Inr_I apply_series_Inr_D by blast

lemma apply_series_length: "apply_series f xs = Inr ys \<Longrightarrow> length ys = length xs"
  by (simp add: apply_series_Inr_iff list_all2_lengthD)

lemma apply_series_Inl_D:
  "apply_series f xs = Inl e \<Longrightarrow> \<exists>x\<in>set xs. f x = Inl e"
  by (induction xs) (auto split: sum.splits)

lemma apply_series_fails:
  assumes "x \<in> set xs" "f x = Inl e" "\<And>y e'. y \<in> set xs \<Longrightarrow> f y = Inl e' \<Longrightarrow> e' = e"
  shows "apply_series f xs = Inl e"
proof (cases "apply_series f xs")
  case (Inl e')
  then obtain y where "y \<in> set xs" "f y = Inl e'" using apply_series_Inl_D by fastforce
  then have "e' = e" by (rule assms(3))
  with Inl show ?thesis by simp
next
  case (Inr ys)
  then have "list_all2 (\<lambda>x y. f x = Inr y) xs ys" by (simp add: apply_series_Inr_iff)
  with assms(1) obtain y where "f x = Inr y"
    by (auto simp: list_all2_conv_all_nth in_set_conv_nth)
  with assms(2) show ?thesis by simp
qed

lemma apply_series_map: "apply_series f (map g xs) = apply_series (\<lambda>x. f (g x)) xs"
  by (induction xs) (auto split: sum.splits)

lemma setitem_map: "setitem upd df (map f df) = map (\<lambda>r. upd (\<lambda>_. f r) r) df"
  by (induction df) (simp_all add: setitem_def)

lemma setitem_map_map:
  "setitem upd (map g df) (map f df) = map (\<lambda>r. upd (\<lambda>_. f r) (g r)) df"
  by (induction df) (simp_all add: setitem_def)

lemma setitem_length: "length col = length df \<Longrightarrow> length (setitem upd df col) = length df"
  by (simp add: setitem_def)

lemma setitem_nth:
  "length col = length df \<Longrightarrow> i < length df \<Longrightarrow> setitem upd df col ! i = upd (\<lambda>_. col ! i) (df ! i)"
  by (simp add: setitem_def)

lemma fillna_map: "fillna v (map f df) = map (\<lambda>r. if isna (f r) then v else f r) df"
  by (simp add: fillna_def)

subsection \<open>The currency parser\<close>

lemma clean_currency_str:
  "clean_currency flt (VStr s) =
     (case flt (residual s) of None \<Rightarrow> Inl ValueError | Some d \<Rightarrow> Inr (VFloat d))"
  by (simp add: residual_def)

lemma clean_currency_error: "clean_currency flt v = Inl e \<Longrightarrow> e = ValueError"
  by (cases v) (auto split: option.splits)

lemma clean_currency_not_str: "clean_currency flt v = Inr w \<Longrightarrow> \<forall>s. w \<noteq> VStr s"
  by (cases v) (auto split: option.splits)

lemma clean_row_error: "clean_row flt r = Inl e \<Longrightarrow> e = ValueError"
  by (auto simp: clean_row_def split: sum.splits dest: clean_currency_error)

subsection \<open>Normalization, row by row\<close>



lemma normalize_rowwise:
  "normalize flt dt tbl =
     (case apply_series (clean_row flt) (rows tbl) of
        Inl e \<Rightarrow> Inl e
      | Inr rs \<Rightarrow>
          Inr \<lparr>columns = map strip (columns tbl),
               rows = dropna_dates rs (map (dt (map order_date (rows tbl))) (map order_date (rows tbl)))\<rparr>)"
proof -
  define df where "df = rows tbl"
  define fz :: "row \<Rightarrow> pyval" where "fz = (\<lambda>r. if isna (sales_per r) then zero else sales_per r)"
  define P :: "row \<Rightarrow> row" where "P = (\<lambda>r. r\<lparr>category := if isna (category r) then uncategorized else category r,
                              sales_per := fz r\<rparr>)"
  define dfb where "dfb = setitem sales_per_update (setitem category_update df (fillna uncategorized (map category df)))
      (fillna zero (map sales_per (setitem category_update df (fillna uncategorized (map category df)))))"
  have dfb: "dfb = map P df"
    by (simp add: dfb_def setitem_map fillna_map setitem_map_map P_def fz_def o_def)
  have sales_col: "map sales_per dfb = map fz df" by (simp add: dfb P_def o_def)
  have fail: "apply_series (clean_row flt) df = Inl ValueError"
    if "r \<in> set df" "clean_row flt r = Inl ValueError" for r
    using that clean_row_error by (rule apply_series_fails)
  show ?thesis
  proof (cases "apply_series (clean_currency flt) (map sales_per dfb)")
    case (Inl e)
    then obtain v where "v \<in> set (map sales_per dfb)" "clean_currency flt v = Inl e"
      using apply_series_Inl_D by fastforce
    then obtain r where r: "r \<in> set df" "clean_currency flt (fz r) = Inl e"
      by (auto simp: sales_col)
    then have e: "e = ValueError" using clean_currency_error by blast
    with r have "clean_row flt r = Inl ValueError" by (simp add: clean_row_def fz_def)
    with r(1) have "apply_series (clean_row flt) df = Inl ValueError" by (rule fail)
    with Inl e show ?thesis
      by (simp add: normalize_def Let_def dfb_def [symmetric] df_def [symmetric])
  next
    case (Inr sales)
    then have s2: "list_all2 (\<lambda>v s. clean_currency flt v = Inr s) (map fz df) sales"
      by (simp add: apply_series_Inr_iff sales_col)
    then have ls: "length sales = length df" by (auto dest: list_all2_lengthD)
    define dfc where "dfc = setitem sales_per_update dfb sales"
    have lc: "length dfc = length df" by (simp add: dfc_def setitem_def ls dfb)
    have dfc_nth: "dfc ! i = (P (df ! i))\<lparr>sales_per := sales ! i\<rparr>" if "i < length df" for i
      using that by (simp add: dfc_def setitem_def ls dfb)
    have profit_col: "map profit dfc = map profit df"
      by (rule nth_equalityI) (simp_all add: lc dfc_nth P_def)
    show ?thesis
    proof (cases "apply_series (clean_currency flt) (map profit df)")
      case (Inl e)
      then obtain v where "v \<in> set (map profit df)" "clean_currency flt v = Inl e"
        using apply_series_Inl_D by fastforce
      then obtain r where r: "r \<in> set df" "clean_currency flt (profit r) = Inl e"
        by auto
      then have e: "e = ValueError" using clean_currency_error by blast
      have "clean_row flt r = Inl ValueError"
      proof (cases "clean_currency flt (fz r)")
        case (Inl e')
        then have "e' = ValueError" using clean_currency_error by blast
        with Inl show ?thesis by (simp add: clean_row_def fz_def)
      next
        case (Inr s)
        with r(2) e show ?thesis by (simp add: clean_row_def fz_def)
      qed
      with r(1) have "apply_series (clean_row flt) df = Inl ValueError" by (rule fail)
      with Inl e \<open>apply_series (clean_currency flt) (map sales_per dfb) = Inr sales\<close> show ?thesis
        by (simp add: normalize_def Let_def dfb_def [symmetric] df_def [symmetric]
            dfc_def [symmetric] profit_col)
    next
      case (Inr profits)
      then have p2: "list_all2 (\<lambda>v p. clean_currency flt v = Inr p) (map profit df) profits"
        by (simp add: apply_series_Inr_iff)
      then have lp: "length profits = length df" by (auto dest: list_all2_lengthD)
      define dfd where "dfd = setitem profit_update dfc profits"
      have ld: "length dfd = length df" by (simp add: dfd_def setitem_def lp lc)
      have dfd_nth: "dfd ! i = (P (df ! i))\<lparr>sales_per := sales ! i, profit := profits ! i\<rparr>"
        if "i < length df" for i
        using that by (simp add: dfd_def setitem_def lp lc dfc_nth)
      have "clean_row flt (df ! i) = Inr (dfd ! i)" if "i < length df" for i
      proof -
        from s2 that have "clean_currency flt (fz (df ! i)) = Inr (sales ! i)"
          by (auto simp: list_all2_conv_all_nth)
        moreover from p2 that have "clean_currency flt (profit (df ! i)) = Inr (profits ! i)"
          by (auto simp: list_all2_conv_all_nth)
        ultimately show ?thesis
          using that by (simp add: clean_row_def fz_def dfd_nth P_def)
      qed
      then have "list_all2 (\<lambda>r r'. clean_row flt r = Inr r') df dfd"
        by (simp add: list_all2_conv_all_nth ld)
      then have rows_ok: "apply_series (clean_row flt) df = Inr dfd"
        by (rule apply_series_Inr_I)
      have date_col: "map order_date dfd = map order_date df"
        by (rule nth_equalityI) (simp_all add: ld dfd_nth P_def)
      have date_col': "map (h \<circ> order_date) dfd = map (h \<circ> order_date) df" for h :: "pyval \<Rightarrow> timestamp option"
        using date_col by (metis map_map)
      from Inr \<open>apply_series (clean_currency flt) (map sales_per dfb) = Inr sales\<close> rows_ok
      show ?thesis
        by (simp add: normalize_def Let_def dfb_def [symmetric] df_def [symmetric]
            dfc_def [symmetric] profit_col dfd_def [symmetric] date_col date_col')
    qed
  qed
qed

subsection \<open>The conversion, row by row\<close>

lemma apply_series_nth:
  "apply_series f xs = Inr ys \<longleftrightarrow> length ys = length xs \<and> (\<forall>i<length xs. f (xs ! i) = Inr (ys ! i))"
  by (auto simp: apply_series_Inr_iff list_all2_conv_all_nth)

lemma mul_series_nth:
  "length ks = length xs \<Longrightarrow>
     mul_series xs ks = Inr ys \<longleftrightarrow>
       length ys = length xs \<and> (\<forall>i<length xs. py_mul (xs ! i) (ks ! i) = Inr (ys ! i))"
  by (auto simp: mul_series_def apply_series_nth)

lemma enrich_row_Inr_D:
  "enrich_row r = Inr e \<Longrightarrow>
     ibr_of (order_date r) = Inr (ibr_rate e) \<and>
     py_mul (sales_per r) (ibr_rate e) = Inr (sales_inr e) \<and>
     py_mul (profit r) (ibr_rate e) = Inr (profit_inr e) \<and>
     year_month_of (order_date r) = Inr (year_month e) \<and>
     base e = r \<and> sales_usd e = sales_per r \<and> profit_usd e = profit r"
  by (auto simp: enrich_row_def split: sum.splits)

lemma assemble_length [simp]: "length (assemble df rate susd pusd sinr pinr ym) = length df"
  by (simp add: assemble_def)

lemma assemble_nth:
  "i < length df \<Longrightarrow>
     assemble df rate susd pusd sinr pinr ym ! i =
       \<lparr>base = df ! i, ibr_rate = rate ! i, sales_usd = susd ! i, profit_usd = pusd ! i,
        sales_inr = sinr ! i, profit_inr = pinr ! i, year_month = ym ! i\<rparr>"
  by (simp add: assemble_def)

lemma enrich_Inr_D:
  assumes "enrich df = Inr out"
  shows "list_all2 (\<lambda>r e. enrich_row r = Inr e) df out"
proof -
  from assms obtain rate sinr pinr ym where
    rate: "apply_series ibr_of (map order_date df) = Inr rate" and
    sinr: "mul_series (map sales_per df) rate = Inr sinr" and
    pinr: "mul_series (map profit df) rate = Inr pinr" and
    ym: "apply_series year_month_of (map order_date df) = Inr ym" and
    out: "out = assemble df rate (map sales_per df) (map profit df) sinr pinr ym"
    by (auto simp: enrich_def Let_def split: sum.splits)
  from rate have lr: "length rate = length df"
    and r: "\<And>i. i < length df \<Longrightarrow> ibr_of (order_date (df ! i)) = Inr (rate ! i)"
    by (simp_all add: apply_series_nth)
  from sinr lr have s: "\<And>i. i < length df \<Longrightarrow> py_mul (sales_per (df ! i)) (rate ! i) = Inr (sinr ! i)"
    by (simp add: mul_series_nth)
  from pinr lr have p: "\<And>i. i < length df \<Longrightarrow> py_mul (profit (df ! i)) (rate ! i) = Inr (pinr ! i)"
    by (simp add: mul_series_nth)
  from ym have y: "\<And>i. i < length df \<Longrightarrow> year_month_of (order_date (df ! i)) = Inr (ym ! i)"
    by (simp add: apply_series_nth)
  show ?thesis
    by (simp add: list_all2_conv_all_nth out assemble_nth enrich_row_def r s p y)
qed

lemma enrich_Inr_I:
  assumes "list_all2 (\<lambda>r e. enrich_row r = Inr e) df out"
  shows "enrich df = Inr out"
proof -
  from assms have len: "length out = length df" by (auto dest: list_all2_lengthD)
  from assms have row: "\<And>i. i < length df \<Longrightarrow> enrich_row (df ! i) = Inr (out ! i)"
    by (simp add: list_all2_conv_all_nth)
  note D = enrich_row_Inr_D [OF row]
  have rate: "apply_series ibr_of (map order_date df) = Inr (map ibr_rate out)"
    using D by (simp add: apply_series_nth len)
  have sinr: "mul_series (map sales_per df) (map ibr_rate out) = Inr (map sales_inr out)"
    using D by (simp add: mul_series_nth len)
  have pinr: "mul_series (map profit df) (map ibr_rate out) = Inr (map profit_inr out)"
    using D by (simp add: mul_series_nth len)
  have ym: "apply_series year_month_of (map order_date df) = Inr (map year_month out)"
    using D by (simp add: apply_series_nth len)
  have "assemble df (map ibr_rate out) (map sales_per df) (map profit df)
          (map sales_inr out) (map profit_inr out) (map year_month out) = out"
  proof (rule nth_equalityI)
    show "length (assemble df (map ibr_rate out) (map sales_per df) (map profit df)
          (map sales_inr out) (map profit_inr out) (map year_month out)) = length out"
      by (simp add: len)
  next
    fix i
    assume "i < length (assemble df (map ibr_rate out) (map sales_per df) (map profit df)
          (map sales_inr out) (map profit_inr out) (map year_month out))"
    then have i: "i < length df" by simp
    from D [OF i] show "assemble df (map ibr_rate out) (map sales_per df) (map profit df)
          (map sales_inr out) (map profit_inr out) (map year_month out) ! i = out ! i"
      using i by (simp add: assemble_nth len)
  qed
  then show ?thesis
    by (simp add: enrich_def Let_def rate sinr pinr ym)
qed

lemma enrich_Inr_iff:
  "enrich df = Inr out \<longleftrightarrow> list_all2 (\<lambda>r e. enrich_row r = Inr e) df out"
  using enrich_Inr_D enrich_Inr_I by blast

lemma enrich_Nil [simp]: "enrich [] = Inr []"
  by (simp add: enrich_Inr_iff)


lemma enrich_base: "enrich df = Inr out \<Longrightarrow> map base out = df"
proof -
  assume "enrich df = Inr out"
  then have a: "list_all2 (\<lambda>r e. enrich_row r = Inr e) df out" by (simp add: enrich_Inr_iff)
  then have "list_all2 (\<lambda>r e. base e = r) df out"
    by (rule list_all2_mono) (simp add: enrich_row_Inr_D)
  then show ?thesis
    by (simp add: list_all2_conv_all_nth list_eq_iff_nth_eq)
qed

subsection \<open>The pipeline and the run\<close>

lemma pipeline_Inr_iff:
  "cleaning_pipeline flt dt tbl = Inr out \<longleftrightarrow>
     (\<exists>rs. apply_series (clean_row flt) (rows tbl) = Inr rs \<and>
           enrich (dropna_dates rs (date_column dt tbl)) = Inr out)"
  by (auto simp: cleaning_pipeline_def normalize_rowwise date_column_def split: sum.splits)



lemma normalize_fails:
  assumes "r \<in> set (rows tbl)" "clean_row flt r = Inl ValueError"
  shows "normalize flt dt tbl = Inl ValueError"
proof -
  have "apply_series (clean_row flt) (rows tbl) = Inl ValueError"
    using assms clean_row_error by (rule apply_series_fails)
  then show ?thesis by (simp add: normalize_rowwise)
qed

lemma run_fails:
  "cleaning_pipeline flt dt tbl = Inl e \<Longrightarrow> run flt dt ssum tbl = Inl e"
  by (simp add: run_def)

lemma run_Inr_D:
  "run flt dt ssum tbl = Inr rep \<Longrightarrow>
     \<exists>out q. cleaning_pipeline flt dt tbl = Inr out \<and> ssum (map (\<lambda>e. quantity (base e)) out) = Inr q \<and>
       rep = \<lparr>processed = length out, records = map to_dict out, items_sold = q\<rparr>"
  by (auto simp: run_def Let_def split: sum.splits)

subsection \<open>Floats that are exact\<close>

lemma mk_float_exact:
  assumes "0 \<le> m" "m < 2 ^ 53" "- 1074 \<le> e" "e \<le> 971"
  shows "mk_float s (of_int m * pow2 e) = Finite s (of_int m * pow2 e)"
proof -
  have r: "round_mag (of_int m * pow2 e) = of_int m * pow2 e"
    using assms(1-3) by (rule round_mag_exact)
  have "(of_int m :: rat) < of_int (2 ^ 53)" using assms(2) by (simp only: of_int_less_iff)
  also have "(of_int (2 ^ 53) :: rat) = pow2 53" by (simp add: pow2_def)
  finally have m: "of_int m < pow2 53" .
  have "of_int m * pow2 e < pow2 53 * pow2 e"
    using m by (simp add: mult_strict_right_mono)
  also have "\<dots> = pow2 (53 + e)" by (simp only: pow2_add)
  also have "\<dots> \<le> pow2 1024" using assms(4) by (simp add: pow2_le_iff)
  finally show ?thesis by (simp add: mk_float_def r)
qed

lemma mk_float_zero [simp]: "mk_float s 0 = Finite s 0"
  using mk_float_exact [of 0 0 s] by simp

lemma mk_float_numeral [simp]:
  "(numeral k :: int) < 2 ^ 53 \<Longrightarrow> mk_float s (numeral k) = Finite s (numeral k)"
  using mk_float_exact [of "numeral k" 0 s] by simp

lemma mk_float_one [simp]: "mk_float s 1 = Finite s 1"
  using mk_float_exact [of 1 0 s] by simp

lemma mk_float_half [simp]:
  "(numeral k :: int) < 2 ^ 53 \<Longrightarrow> mk_float s (numeral k / 2) = Finite s (numeral k / 2)"
  using mk_float_exact [of "numeral k" "- 1" s] by (simp add: pow2_def)

lemma lit_near:
  assumes "1 \<le> q" "q \<le> 1000"
  shows "\<exists>v. lit q = Finite False v \<and> \<bar>v - q\<bar> \<le> q / 2 ^ 53"
proof -
  define d where "d = q / 2 ^ 53"
  have qpos: "0 < q" using assms(1) by simp
  have "pow2 (- 1075) \<le> pow2 (- 53)" by (simp add: pow2_le_iff)
  also have "pow2 (- 53) = 1 / 2 ^ 53" by (simp add: pow2_def)
  also have "\<dots> \<le> d" unfolding d_def using assms(1) by (simp add: divide_right_mono)
  finally have "max d (pow2 (- 1075)) = d" by (simp add: max_def)
  with round_mag_error [OF qpos] have err: "\<bar>round_mag q - q\<bar> \<le> d" by (simp add: d_def)
  have "d \<le> q" unfolding d_def using qpos by (simp add: field_simps)
  with err have "round_mag q \<le> 2 * q" by linarith
  with assms(2) have "round_mag q < 2048" by linarith
  also have "(2048::rat) = pow2 11" by (simp add: pow2_def)
  also have "\<dots> \<le> pow2 1024" by (simp add: pow2_le_iff)
  finally have "lit q = Finite False (round_mag q)" by (simp add: lit_def mk_float_def)
  with err show ?thesis unfolding d_def by blast
qed

lemma lit_range:
  assumes "74 < q" "q < 85"
  shows "\<exists>v. lit q = Finite False v \<and> q - 1 / 100 \<le> v \<and> v \<le> q + 1 / 100"
proof -
  define d where "d = q / 2 ^ 53"
  from assms have "1 \<le> q" "q \<le> 1000" by simp_all
  from lit_near [OF this] obtain v where v: "lit q = Finite False v" "\<bar>v - q\<bar> \<le> d"
    unfolding d_def by blast
  have "d \<le> 1 / 100" unfolding d_def using assms by simp
  with v(2) have "q - 1 / 100 \<le> v" "v \<le> q + 1 / 100" by linarith+
  with v(1) show ?thesis by blast
qed

lemma lit_825: "lit (825 / 10) = Finite False (165 / 2)"
  by (simp add: lit_def)

lemma lit_83: "lit 83 = Finite False 83"
  by (simp add: lit_def)

lemma residual_symbol_free: "residual s = strip (symbol_free s)"
  by (simp add: residual_def replace_empty_def symbol_free_def conj_ac)

lemma symbol_free_idem: "symbol_free (symbol_free s) = symbol_free s"
  by (simp add: symbol_free_def)

lemma rate_cases:
  "get_ibr_rate d \<in> {lit (741 / 10), lit (786 / 10), lit (825 / 10), lit (834 / 10), lit (845 / 10), lit 83}"
  by (simp add: get_ibr_rate_def rates_def Let_def)

lemma rate_bounds: "\<exists>v. get_ibr_rate d = Finite False v \<and> 74 \<le> v \<and> v \<le> 85"
proof -
  have *: "\<exists>v. lit q = Finite False v \<and> 74 \<le> v \<and> v \<le> 85" if "741 / 10 \<le> q" "q \<le> 845 / 10" for q
  proof -
    from that have "74 < q" "q < 85" by simp_all
    from lit_range [OF this] obtain v where "lit q = Finite False v" "q - 1 / 100 \<le> v" "v \<le> q + 1 / 100"
      by blast
    with that show ?thesis by (intro exI [of _ v]) simp
  qed
  from rate_cases [of d] show ?thesis
    by (elim insertE emptyE) (simp_all add: *)
qed

lemmas py_float_eval = py_float_def str_def strip_def isspace_def take_sign_def lower_def
  parse_number_def digit_or_underscore_def is_digit_def digits_value_def parse_exponent_def
  replace_empty_def dollar_def rupee_def comma_def Let_def

text \<open>
  C5. The rate of a year never fails: it is 82.5 for 2023, the default 83.0 for every year
  outside 2021 to 2025, and in every case a finite float between 74 and 85.
\<close>

theorem get_ibr_rate_total:
  "(ts_year date = 2023 \<longrightarrow> get_ibr_rate date = Finite False (165 / 2)) \<and>
   (ts_year date \<notin> {2021, 2022, 2023, 2024, 2025} \<longrightarrow> get_ibr_rate date = Finite False 83) \<and>
   (\<exists>r. get_ibr_rate date = Finite False r \<and> 74 \<le> r \<and> r \<le> 85)"
proof (intro conjI impI)
  assume "ts_year date = 2023"
  then show "get_ibr_rate date = Finite False (165 / 2)"
    by (simp add: get_ibr_rate_def rates_def lit_def)
next
  assume "ts_year date \<notin> {2021, 2022, 2023, 2024, 2025}"
  then show "get_ibr_rate date = Finite False 83"
    by (simp add: get_ibr_rate_def rates_def lit_def)
next
  show "\<exists>r. get_ibr_rate date = Finite False r \<and> 74 \<le> r \<and> r \<le> 85"
    by (rule rate_bounds)
qed

theorem get_ibr_rate_total_witness:
  "get_ibr_rate \<lparr>ts_year = 2023, ts_month = 6, ts_day = 15, ts_nanos = 0\<rparr> = Finite False (165 / 2) \<and>
   get_ibr_rate \<lparr>ts_year = 1999, ts_month = 1, ts_day = 1, ts_nanos = 0\<rparr> = Finite False 83"
  using get_ibr_rate_total [of "\<lparr>ts_year = 2023, ts_month = 6, ts_day = 15, ts_nanos = 0\<rparr>"]
    get_ibr_rate_total [of "\<lparr>ts_year = 1999, ts_month = 1, ts_day = 1, ts_nanos = 0\<rparr>"]
  by simp

text \<open>
  C4. The currency parser returns a numeric cell unchanged, and on a text it returns what
  it returns on the same text without dollar signs, rupee signs and commas: the float of
  that text, stripped.
\<close>

theorem clean_currency_symbol_free:
  "clean_currency flt (VFloat d) = Inr (VFloat d) \<and>
   clean_currency flt (VInt n) = Inr (VInt n) \<and>
   clean_currency flt (VStr s) = clean_currency flt (VStr (symbol_free s)) \<and>
   clean_currency flt (VStr s) =
     (case flt (strip (symbol_free s)) of None \<Rightarrow> Inl ValueError | Some x \<Rightarrow> Inr (VFloat x))"
  by (simp add: clean_currency_str residual_symbol_free symbol_free_idem del: clean_currency.simps(1))

theorem clean_currency_symbol_free_witness:
  "clean_currency py_float (VStr (str ''$1,200.50'')) = Inr (VFloat (Finite False (2401 / 2))) \<and>
   clean_currency py_float (VStr (str ''1200.50'')) = Inr (VFloat (Finite False (2401 / 2))) \<and>
   symbol_free (str ''$1,200.50'') = str ''1200.50''"
  using clean_currency_symbol_free [of py_float _ _ "str ''$1,200.50''"]
  by (simp add: symbol_free_def py_float_eval)

lemma clean_row_bad_amount:
  assumes "(\<exists>s. sales_per r = VStr s \<and> flt (residual s) = None) \<or>
           (\<exists>s. profit r = VStr s \<and> flt (residual s) = None)"
  shows "clean_row flt r = Inl ValueError"
proof (cases "clean_currency flt (if isna (sales_per r) then zero else sales_per r)")
  case (Inl e)
  then have "e = ValueError" by (rule clean_currency_error)
  with Inl show ?thesis by (simp add: clean_row_def)
next
  case (Inr v)
  have "\<not> (\<exists>s. sales_per r = VStr s \<and> flt (residual s) = None)"
  proof
    assume "\<exists>s. sales_per r = VStr s \<and> flt (residual s) = None"
    then obtain s where "sales_per r = VStr s" "flt (residual s) = None" by blast
    then have "clean_currency flt (if isna (sales_per r) then zero else sales_per r) = Inl ValueError"
      by (simp add: isna_def clean_currency_str del: clean_currency.simps(1))
    with Inr show False by simp
  qed
  with assms obtain s where "profit r = VStr s" "flt (residual s) = None" by blast
  then have "clean_currency flt (profit r) = Inl ValueError"
    by (simp add: clean_currency_str del: clean_currency.simps(1))
  with Inr show ?thesis by (simp add: clean_row_def)
qed

lemma pipeline_fails:
  assumes "r \<in> set (rows tbl)" "clean_row flt r = Inl ValueError"
  shows "cleaning_pipeline flt dt tbl = Inl ValueError"
  using normalize_fails [OF assms] by (simp add: cleaning_pipeline_def)

lemmas table_eval = cleaning_pipeline_def normalize_rowwise enrich_Inr_iff clean_row_def
  enrich_row_def isna_def zero_def uncategorized_def ibr_of_def year_month_of_def
  period_str_def zfill2_def zfill4_def iso_date_def days_in_month_def

text \<open>
  C1. The row of the scenario: normalization fills the category, parses the two amounts
  and the date; the conversion adds the rate of 2023, the amounts in both currencies and
  the month. The cells that the scenario leaves open are arbitrary.
\<close>

theorem scenario_row:
  "normalize py_float iso_to_datetime
     \<lparr>columns = cols,
      rows = [\<lparr>order_date = VStr (str ''2023-06-15''), category = VFloat NaN,
               sales_per = VStr (str ''$100''), profit = VStr (str ''$20''),
               segment = sg, state = st, quantity = VInt 2, order_id = VStr (str ''A1''),
               customer_id = cu\<rparr>]\<rparr> =
   Inr \<lparr>columns = map strip cols,
        rows = [\<lparr>order_date = VTime \<lparr>ts_year = 2023, ts_month = 6, ts_day = 15, ts_nanos = 0\<rparr>,
                 category = VStr (str ''Uncategorized''),
                 sales_per = VFloat (Finite False 100), profit = VFloat (Finite False 20),
                 segment = sg, state = st, quantity = VInt 2, order_id = VStr (str ''A1''),
                 customer_id = cu\<rparr>]\<rparr> \<and>
   cleaning_pipeline py_float iso_to_datetime
     \<lparr>columns = cols,
      rows = [\<lparr>order_date = VStr (str ''2023-06-15''), category = VFloat NaN,
               sales_per = VStr (str ''$100''), profit = VStr (str ''$20''),
               segment = sg, state = st, quantity = VInt 2, order_id = VStr (str ''A1''),
               customer_id = cu\<rparr>]\<rparr> =
   Inr [\<lparr>base = \<lparr>order_date = VTime \<lparr>ts_year = 2023, ts_month = 6, ts_day = 15, ts_nanos = 0\<rparr>,
                   category = VStr (str ''Uncategorized''),
                   sales_per = VFloat (Finite False 100), profit = VFloat (Finite False 20),
                   segment = sg, state = st, quantity = VInt 2, order_id = VStr (str ''A1''),
                   customer_id = cu\<rparr>,
         ibr_rate = Finite False (165 / 2),
         sales_usd = VFloat (Finite False 100), profit_usd = VFloat (Finite False 20),
         sales_inr = Finite False 8250, profit_inr = Finite False 1650,
         year_month = str ''2023-06''\<rparr>]"
  by (simp add: table_eval py_float_eval get_ibr_rate_def rates_def lit_def)

lemmas example_defs = header_def scenario_def june15_def scenario_normalized_def scenario_enriched_def

theorem scenario_row_witness:
  "normalize py_float iso_to_datetime \<lparr>columns = header, rows = [scenario]\<rparr> =
     Inr \<lparr>columns = map strip header, rows = [scenario_normalized]\<rparr> \<and>
   cleaning_pipeline py_float iso_to_datetime \<lparr>columns = header, rows = [scenario]\<rparr> =
     Inr [scenario_enriched]"
  using scenario_row [of header "VStr (str ''Consumer'')" "VStr (str ''Kerala'')" "VStr (str ''K7'')"]
  by (simp add: scenario_def june15_def scenario_normalized_def scenario_enriched_def)

lemma pipeline_scenario:
  "cleaning_pipeline py_float iso_to_datetime \<lparr>columns = header, rows = [scenario]\<rparr> = Inr [scenario_enriched]"
  by (simp add: table_eval py_float_eval get_ibr_rate_def rates_def lit_def
      scenario_def june15_def scenario_normalized_def scenario_enriched_def)

text \<open>
  C2. When a row holds, under Sales Per or Profit, a text whose residual string is not a
  float literal, the currency parser raises on that cell, the exception leaves the
  normalization stage, and the pipeline and the run end in that error with no record.
\<close>

theorem invalid_amount_aborts_run:
  assumes "r \<in> set (rows tbl)"
    and "(\<exists>s. sales_per r = VStr s \<and> flt (residual s) = None) \<or>
         (\<exists>s. profit r = VStr s \<and> flt (residual s) = None)"
  shows "(clean_currency flt (sales_per r) = Inl ValueError \<or>
          clean_currency flt (profit r) = Inl ValueError) \<and>
         normalize flt dt tbl = Inl ValueError \<and>
         cleaning_pipeline flt dt tbl = Inl ValueError \<and>
         run flt dt ssum tbl = Inl ValueError"
proof -
  have cell: "clean_currency flt (sales_per r) = Inl ValueError \<or>
      clean_currency flt (profit r) = Inl ValueError"
    using assms(2) by (auto simp: clean_currency_str simp del: clean_currency.simps(1))
  have row: "clean_row flt r = Inl ValueError" using assms(2) by (rule clean_row_bad_amount)
  have n: "normalize flt dt tbl = Inl ValueError" using assms(1) row by (rule normalize_fails)
  have p: "cleaning_pipeline flt dt tbl = Inl ValueError" using assms(1) row by (rule pipeline_fails)
  from cell n p show ?thesis by (simp add: run_fails)
qed

lemmas residual_eval = residual_def replace_empty_def dollar_def rupee_def comma_def
  strip_def isspace_def str_def

lemma py_float_free: "py_float (residual (str ''free'')) = None"
  by (simp add: residual_eval py_float_eval)

theorem invalid_amount_aborts_run_witness:
  "scenario\<lparr>profit := VStr (str ''free'')\<rparr> \<in> set [scenario, scenario\<lparr>profit := VStr (str ''free'')\<rparr>] \<and>
   py_float (residual (str ''free'')) = None \<and>
   cleaning_pipeline py_float iso_to_datetime
     \<lparr>columns = header, rows = [scenario, scenario\<lparr>profit := VStr (str ''free'')\<rparr>]\<rparr> = Inl ValueError \<and>
   run py_float iso_to_datetime int_sum
     \<lparr>columns = header, rows = [scenario, scenario\<lparr>profit := VStr (str ''free'')\<rparr>]\<rparr> = Inl ValueError"
  using invalid_amount_aborts_run [of "scenario\<lparr>profit := VStr (str ''free'')\<rparr>"
      "\<lparr>columns = header, rows = [scenario, scenario\<lparr>profit := VStr (str ''free'')\<rparr>]\<rparr>"
      py_float iso_to_datetime int_sum]
  by (simp add: py_float_free)

text \<open>
  C10. The amounts are parsed before the dates. A row whose date does not parse and that
  holds an amount that does not parse makes the run end in the error of the currency
  parser, whatever the date parser makes of any date: the row is not dropped first.
\<close>

theorem invalid_amount_before_date_drop:
  assumes "r \<in> set (rows tbl)"
    and "dt (map order_date (rows tbl)) (order_date r) = None"
    and "(\<exists>s. sales_per r = VStr s \<and> flt (residual s) = None) \<or>
         (\<exists>s. profit r = VStr s \<and> flt (residual s) = None)"
  shows "cleaning_pipeline flt dt tbl = Inl ValueError \<and> run flt dt ssum tbl = Inl ValueError \<and>
         (\<forall>dt'. run flt dt' ssum tbl = Inl ValueError)"
proof -
  have row: "clean_row flt r = Inl ValueError" using assms(3) by (rule clean_row_bad_amount)
  have "cleaning_pipeline flt dt' tbl = Inl ValueError" for dt'
    using assms(1) row by (rule pipeline_fails)
  then show ?thesis by (simp add: run_fails)
qed

lemma not_a_date: "iso_date (str ''not-a-date'') = None"
  by (simp add: iso_date_def str_def is_digit_def)

theorem invalid_amount_before_date_drop_witness:
  "iso_to_datetime
     (map order_date [scenario, scenario\<lparr>order_date := VStr (str ''not-a-date''), profit := VStr (str ''free'')\<rparr>])
     (VStr (str ''not-a-date'')) = None \<and>
   py_float (residual (str ''free'')) = None \<and>
   run py_float iso_to_datetime int_sum
     \<lparr>columns = header,
      rows = [scenario, scenario\<lparr>order_date := VStr (str ''not-a-date''), profit := VStr (str ''free'')\<rparr>]\<rparr> =
     Inl ValueError"
  using invalid_amount_before_date_drop
    [of "scenario\<lparr>order_date := VStr (str ''not-a-date''), profit := VStr (str ''free'')\<rparr>"
      "\<lparr>columns = header,
        rows = [scenario, scenario\<lparr>order_date := VStr (str ''not-a-date''), profit := VStr (str ''free'')\<rparr>]\<rparr>"
      iso_to_datetime py_float int_sum]
  by (simp add: py_float_free not_a_date)



lemma pipeline_scenario_undated:
  "cleaning_pipeline py_float iso_to_datetime \<lparr>columns = header, rows = [scenario, undated]\<rparr> =
     Inr [scenario_enriched]"
  by (simp add: table_eval py_float_eval get_ibr_rate_def rates_def lit_def
      scenario_def june15_def scenario_normalized_def scenario_enriched_def undated_def)

lemma int_sum_2: "int_sum [VInt 2] = Inr (VInt 2)"
  by (simp add: int_sum_def wrap64_def)

lemma quantity_scenario: "quantity (base scenario_enriched) = VInt 2"
  by (simp add: scenario_enriched_def scenario_normalized_def)

lemma run_scenario:
  "run py_float iso_to_datetime int_sum \<lparr>columns = header, rows = [scenario]\<rparr> = Inr scenario_report"
  by (simp add: run_def pipeline_scenario quantity_scenario int_sum_2 scenario_report_def)

lemma run_scenario_undated:
  "run py_float iso_to_datetime int_sum \<lparr>columns = header, rows = [scenario, undated]\<rparr> =
     Inr scenario_report"
  by (simp add: run_def pipeline_scenario_undated quantity_scenario int_sum_2 scenario_report_def)

lemma dates_scenario_undated:
  "date_column iso_to_datetime \<lparr>columns = header, rows = [scenario, undated]\<rparr> = [Some june15, None]"
  by (simp add: date_column_def scenario_def undated_def iso_date_def str_def is_digit_def
      digits_value_def days_in_month_def june15_def)

lemma dropna_dates_zip:
  "dropna_dates rs ds = [r\<lparr>order_date := VTime t\<rparr>. (r, Some t) \<leftarrow> zip rs ds]"
  by (induction rs ds rule: dropna_dates.induct) simp_all

lemma pipeline_rows:
  assumes "cleaning_pipeline flt dt tbl = Inr out"
  shows "\<exists>rs. apply_series (clean_row flt) (rows tbl) = Inr rs \<and>
           length rs = length (rows tbl) \<and>
           (\<forall>i<length rs. clean_row flt (rows tbl ! i) = Inr (rs ! i)) \<and>
           map base out = [r\<lparr>order_date := VTime t\<rparr>. (r, Some t) \<leftarrow> zip rs (date_column dt tbl)] \<and>
           (\<forall>e\<in>set out. enrich_row (base e) = Inr e)"
proof -
  from assms obtain rs where rs: "apply_series (clean_row flt) (rows tbl) = Inr rs"
    and en: "enrich (dropna_dates rs (date_column dt tbl)) = Inr out"
    by (auto simp: pipeline_Inr_iff)
  from en have b: "map base out = dropna_dates rs (date_column dt tbl)" by (rule enrich_base)
  from en have all: "list_all2 (\<lambda>r e. enrich_row r = Inr e) (dropna_dates rs (date_column dt tbl)) out"
    by (simp add: enrich_Inr_iff)
  have e: "enrich_row (base e) = Inr e" if "e \<in> set out" for e
  proof -
    from that obtain j where j: "j < length out" "out ! j = e" by (auto simp: in_set_conv_nth)
    with all have "enrich_row (dropna_dates rs (date_column dt tbl) ! j) = Inr e"
      by (auto simp: list_all2_conv_all_nth)
    then show ?thesis by (simp add: enrich_row_Inr_D)
  qed
  from rs have l: "length rs = length (rows tbl)" by (rule apply_series_length)
  from rs have "\<forall>i<length rs. clean_row flt (rows tbl ! i) = Inr (rs ! i)"
    by (simp add: l apply_series_nth)
  with rs l b e show ?thesis by (auto simp: dropna_dates_zip)
qed





lemma clean_rows_undated_scenario:
  "apply_series (clean_row py_float) [undated, scenario] =
     Inr [scenario_normalized\<lparr>order_date := VStr (str ''not-a-date''), order_id := VStr (str ''A2'')\<rparr>,
          scenario_normalized\<lparr>order_date := VStr (str ''2023-06-15'')\<rparr>]"
  by (simp add: table_eval py_float_eval scenario_def scenario_normalized_def undated_def)





text \<open>
  C8. What a successful run yields is the enriched records, their number, which is the
  number of rows retained, and the total of Quantity over the retained rows; each record
  carries its Order ID. It does not yield the number of input rows nor the number of
  dropped rows: two tables of different sizes yield the same.
\<close>

theorem run_report:
  assumes "run flt dt ssum tbl = Inr rep"
  shows "\<exists>out. cleaning_pipeline flt dt tbl = Inr out \<and>
           records rep = map to_dict out \<and>
           processed rep = length out \<and>
           ssum (map (\<lambda>e. quantity (base e)) out) = Inr (items_sold rep) \<and>
           map (\<lambda>d. map_of d ''Order ID'') (records rep) = map (\<lambda>e. Some (order_id (base e))) out"
proof -
  from run_Inr_D [OF assms] obtain out q where
    p: "cleaning_pipeline flt dt tbl = Inr out" and
    q: "ssum (map (\<lambda>e. quantity (base e)) out) = Inr q" and
    rep: "rep = \<lparr>processed = length out, records = map to_dict out, items_sold = q\<rparr>"
    by blast
  have "map (\<lambda>d. map_of d ''Order ID'') (map to_dict out) = map (\<lambda>e. Some (order_id (base e))) out"
    by (simp add: to_dict_def)
  with p q rep show ?thesis by simp
qed

theorem run_report_witness:
  "run py_float iso_to_datetime int_sum \<lparr>columns = header, rows = [scenario]\<rparr> = Inr scenario_report \<and>
   cleaning_pipeline py_float iso_to_datetime \<lparr>columns = header, rows = [scenario]\<rparr> = Inr [scenario_enriched] \<and>
   records scenario_report = [to_dict scenario_enriched] \<and>
   processed scenario_report = 1 \<and>
   items_sold scenario_report = VInt 2"
  using run_report [of py_float iso_to_datetime int_sum "\<lparr>columns = header, rows = [scenario]\<rparr>" scenario_report]
  by (simp add: run_scenario pipeline_scenario scenario_report_def)

theorem run_summary_counterexample:
  "\<not> (\<exists>total_rows dropped_rows :: report \<Rightarrow> nat.
        \<forall>tbl rep. run py_float iso_to_datetime int_sum tbl = Inr rep \<longrightarrow>
          total_rows rep = length (rows tbl) \<and>
          dropped_rows rep = length (filter (\<lambda>d. d = None) (date_column iso_to_datetime tbl)))"
proof
  assume "\<exists>total_rows dropped_rows :: report \<Rightarrow> nat.
        \<forall>tbl rep. run py_float iso_to_datetime int_sum tbl = Inr rep \<longrightarrow>
          total_rows rep = length (rows tbl) \<and>
          dropped_rows rep = length (filter (\<lambda>d. d = None) (date_column iso_to_datetime tbl))"
  then obtain total_rows :: "report \<Rightarrow> nat" where
    t: "\<And>tbl rep. run py_float iso_to_datetime int_sum tbl = Inr rep \<Longrightarrow> total_rows rep = length (rows tbl)"
    by blast
  from t [OF run_scenario] t [OF run_scenario_undated] show False by simp
qed

subsection \<open>Rows that survive\<close>


lemma dropna_dates_mem_D:
  "r' \<in> set (dropna_dates rs ds) \<Longrightarrow> \<exists>r\<in>set rs. \<exists>t. r' = r\<lparr>order_date := VTime t\<rparr>"
  by (induction rs ds rule: dropna_dates.induct) auto

lemma clean_row_Inr_D:
  "clean_row flt r = Inr r' \<Longrightarrow>
     \<exists>s p. clean_currency flt (if isna (sales_per r) then zero else sales_per r) = Inr s \<and>
           clean_currency flt (profit r) = Inr p \<and>
           r' = r\<lparr>category := if isna (category r) then uncategorized else category r,
                  sales_per := s, profit := p\<rparr>"
  by (auto simp: clean_row_def split: sum.splits)

lemma list_all2_exists:
  "(\<And>x. x \<in> set xs \<Longrightarrow> \<exists>y. P x y) \<Longrightarrow> \<exists>ys. list_all2 P xs ys"
proof (induction xs)
  case Nil
  then show ?case by simp
next
  case (Cons x xs)
  then obtain y ys where "P x y" "list_all2 P xs ys" by (metis list.set_intros)
  then have "list_all2 P (x # xs) (y # ys)" by simp
  then show ?case by blast
qed

lemma apply_series_succeeds:
  "(\<And>x. x \<in> set xs \<Longrightarrow> \<exists>y. f x = Inr y) \<Longrightarrow> \<exists>ys. apply_series f xs = Inr ys"
  using list_all2_exists [of xs "\<lambda>x y. f x = Inr y"] by (auto simp: apply_series_Inr_iff)
















subsection \<open>Normalizing again\<close>

lemma strip_idem: "strip (strip s) = strip s"
proof -
  define a where "a = dropWhile isspace s"
  define b where "b = rev (dropWhile isspace (rev a))"
  have sb: "strip s = b" by (simp add: strip_def a_def b_def)
  have 1: "dropWhile isspace b = b"
  proof (cases b)
    case Nil
    then show ?thesis by simp
  next
    case (Cons x xs)
    have "rev (rev (dropWhile isspace (rev a)) @ rev (takeWhile isspace (rev a))) = rev a"
      by (simp only: rev_append rev_rev_ident takeWhile_dropWhile_id)
    then have "rev (dropWhile isspace (rev a)) @ rev (takeWhile isspace (rev a)) = a"
      by (simp only: rev_is_rev_conv)
    then have ab: "a = b @ rev (takeWhile isspace (rev a))" by (simp only: b_def)
    with Cons have ax: "a = x # xs @ rev (takeWhile isspace (rev a))" by simp
    have "a \<noteq> []" "hd a = x" by (subst ax, simp)+
    then have "\<not> isspace x" unfolding a_def using hd_dropWhile [of isspace s] by auto
    with Cons show ?thesis by simp
  qed
  have 2: "rev (dropWhile isspace (rev b)) = b" by (simp add: b_def)
  show ?thesis by (simp add: sb) (simp add: strip_def 1 2)
qed

lemma clean_currency_non_str: "(\<And>s. v \<noteq> VStr s) \<Longrightarrow> clean_currency flt v = Inr v"
  by (cases v) auto

lemma dropna_dates_same:
  "(\<And>r. r \<in> set rs \<Longrightarrow> \<exists>ts. order_date r = VTime ts \<and> f r = Some ts) \<Longrightarrow>
     dropna_dates rs (map f rs) = rs"
proof (induction rs)
  case Nil
  then show ?case by simp
next
  case (Cons r rs)
  from Cons.prems [of r] obtain ts where "order_date r = VTime ts" "f r = Some ts" by auto
  moreover have "dropna_dates rs (map f rs) = rs" using Cons by auto
  ultimately show ?case by simp
qed

lemma normalized_row_clean:
  assumes "clean_row flt r = Inr r0" "sales_per r0 \<noteq> VFloat NaN"
  shows "clean_row flt (r0\<lparr>order_date := d\<rparr>) = Inr (r0\<lparr>order_date := d\<rparr>)"
proof -
  from clean_row_Inr_D [OF assms(1)] obtain s p where
    s: "clean_currency flt (if isna (sales_per r) then zero else sales_per r) = Inr s" and
    p: "clean_currency flt (profit r) = Inr p" and
    r0: "r0 = r\<lparr>category := if isna (category r) then uncategorized else category r,
                sales_per := s, profit := p\<rparr>"
    by blast
  have c: "\<not> isna (category r0)" by (simp add: r0 isna_def uncategorized_def)
  have "\<And>x. s \<noteq> VStr x" using s clean_currency_not_str by blast
  then have s': "clean_currency flt (sales_per r0) = Inr (sales_per r0)"
    by (simp add: r0 clean_currency_non_str)
  have "\<And>x. p \<noteq> VStr x" using p clean_currency_not_str by blast
  then have p': "clean_currency flt (profit r0) = Inr (profit r0)"
    by (simp add: r0 clean_currency_non_str)
  from c s' p' assms(2) show ?thesis by (simp add: clean_row_def isna_def)
qed

lemma normalize_scenario:
  "normalize py_float iso_to_datetime \<lparr>columns = header, rows = [scenario]\<rparr> =
     Inr \<lparr>columns = map strip header, rows = [scenario_normalized]\<rparr>"
  by (simp add: table_eval py_float_eval scenario_def june15_def scenario_normalized_def)

lemma normalize_scenario_nan:
  "normalize py_float iso_to_datetime
       \<lparr>columns = header, rows = [scenario\<lparr>sales_per := VStr (str ''$nan'')\<rparr>]\<rparr> =
     Inr \<lparr>columns = map strip header, rows = [scenario_normalized\<lparr>sales_per := VFloat NaN\<rparr>]\<rparr>"
  by (simp add: table_eval py_float_eval scenario_def june15_def scenario_normalized_def)

lemma normalize_scenario_nan_again:
  "normalize py_float iso_to_datetime
       \<lparr>columns = map strip header, rows = [scenario_normalized\<lparr>sales_per := VFloat NaN\<rparr>]\<rparr> =
     Inr \<lparr>columns = map strip header,
          rows = [scenario_normalized\<lparr>sales_per := VFloat (Finite False 0)\<rparr>]\<rparr>"
  by (simp add: table_eval strip_idem scenario_normalized_def)

text \<open>
  C7. Normalizing a normalized table again gives the same table, when no Sales Per of the
  normalized table is NaN and the date parser takes a timestamp as it is. A text such as
  \<open>$nan\<close> parses to NaN, which the second pass takes for a missing cell and fills with 0.
\<close>

theorem normalize_idempotent:
  assumes "normalize flt dt tbl = Inr t"
    and "\<forall>r\<in>set (rows t). sales_per r \<noteq> VFloat NaN"
    and "\<forall>col ts. dt col (VTime ts) = Some ts"
  shows "normalize flt dt t = Inr t"
proof -
  from assms(1) obtain rs where rs: "apply_series (clean_row flt) (rows tbl) = Inr rs"
    and t: "t = \<lparr>columns = map strip (columns tbl),
                 rows = dropna_dates rs (map (dt (map order_date (rows tbl))) (map order_date (rows tbl)))\<rparr>"
    by (auto simp: normalize_rowwise split: sum.splits)
  have row: "clean_row flt r' = Inr r' \<and> (\<exists>ts. order_date r' = VTime ts)" if "r' \<in> set (rows t)" for r'
  proof -
    from that t obtain r0 ts where r0: "r0 \<in> set rs" "r' = r0\<lparr>order_date := VTime ts\<rparr>"
      using dropna_dates_mem_D by fastforce
    from rs r0(1) obtain r where "clean_row flt r = Inr r0"
      by (auto simp: apply_series_Inr_iff list_all2_conv_all_nth in_set_conv_nth)
    moreover have "sales_per r0 \<noteq> VFloat NaN" using assms(2) that r0(2) by auto
    ultimately show ?thesis using r0(2) by (simp add: normalized_row_clean)
  qed
  then have "list_all2 (\<lambda>r r'. clean_row flt r = Inr r') (rows t) (rows t)"
    by (simp add: list_all2_same)
  then have a: "apply_series (clean_row flt) (rows t) = Inr (rows t)" by (rule apply_series_Inr_I)
  have "\<exists>ts. order_date r = VTime ts \<and> dt (map order_date (rows t)) (order_date r) = Some ts"
    if "r \<in> set (rows t)" for r
  proof -
    from row [OF that] obtain ts where "order_date r = VTime ts" by blast
    with assms(3) show ?thesis by simp
  qed
  then have "dropna_dates (rows t) (map (\<lambda>r. dt (map order_date (rows t)) (order_date r)) (rows t)) = rows t"
    by (rule dropna_dates_same)
  then have d: "dropna_dates (rows t) (map (dt (map order_date (rows t)) \<circ> order_date) (rows t)) = rows t"
    by (simp add: o_def)
  have c: "map strip (columns t) = columns t" by (simp add: t strip_idem)
  show ?thesis by (simp add: normalize_rowwise a d c)
qed

theorem normalize_idempotent_witness:
  "normalize py_float iso_to_datetime \<lparr>columns = header, rows = [scenario]\<rparr> =
     Inr \<lparr>columns = map strip header, rows = [scenario_normalized]\<rparr> \<and>
   sales_per scenario_normalized \<noteq> VFloat NaN \<and>
   (\<forall>col ts. iso_to_datetime col (VTime ts) = Some ts) \<and>
   normalize py_float iso_to_datetime \<lparr>columns = map strip header, rows = [scenario_normalized]\<rparr> =
     Inr \<lparr>columns = map strip header, rows = [scenario_normalized]\<rparr>"
  using normalize_idempotent [of py_float iso_to_datetime "\<lparr>columns = header, rows = [scenario]\<rparr>"
      "\<lparr>columns = map strip header, rows = [scenario_normalized]\<rparr>"]
  by (simp add: normalize_scenario) (simp add: scenario_normalized_def)

theorem normalize_twice_counterexample:
  "normalize py_float iso_to_datetime
       \<lparr>columns = header, rows = [scenario\<lparr>sales_per := VStr (str ''$nan'')\<rparr>]\<rparr> =
     Inr \<lparr>columns = map strip header, rows = [scenario_normalized\<lparr>sales_per := VFloat NaN\<rparr>]\<rparr> \<and>
   normalize py_float iso_to_datetime
       \<lparr>columns = map strip header, rows = [scenario_normalized\<lparr>sales_per := VFloat NaN\<rparr>]\<rparr> =
     Inr \<lparr>columns = map strip header,
          rows = [scenario_normalized\<lparr>sales_per := VFloat (Finite False 0)\<rparr>]\<rparr> \<and>
   \<lparr>columns = map strip header, rows = [scenario_normalized\<lparr>sales_per := VFloat NaN\<rparr>]\<rparr> \<noteq>
   \<lparr>columns = map strip header, rows = [scenario_normalized\<lparr>sales_per := VFloat (Finite False 0)\<rparr>]\<rparr>"
  by (simp add: normalize_scenario_nan normalize_scenario_nan_again) (simp add: scenario_normalized_def)

subsection \<open>Multiplying by a rate and dividing by it\<close>

lemma round_mag_error0:
  assumes "0 \<le> q"
  shows "\<bar>round_mag q - q\<bar> \<le> max (q / 2 ^ 53) (pow2 (- 1075))"
proof (cases "q = 0")
  case True
  then show ?thesis by (simp add: max_def)
next
  case False
  with assms have "0 < q" by simp
  then show ?thesis by (rule round_mag_error)
qed

lemma pow2_53: "(2::rat) ^ 53 = pow2 53"
  by (simp add: pow2_def)

lemma pow2_1023_53: "pow2 (- 1023) / pow2 53 = pow2 (- 1076)"
  using pow2_diff [of "- 1023" 53] by simp

lemma pow2_1075: "pow2 (- 1075) = 2 * pow2 (- 1076)"
  using pow2_Suc [of "- 1076"] by simp

lemma pow2_1074: "pow2 (- 1074) = 4 * pow2 (- 1076)"
  using pow2_Suc [of "- 1075"] by (simp add: pow2_1075)

lemma div_rate_error:
  fixes p a q r :: rat
  assumes "a = q * r" "0 < r" "\<bar>p - a\<bar> \<le> c"
  shows "\<bar>p / r - q\<bar> \<le> c / r"
proof -
  have "p / r - q = (p - a) / r" using assms(1,2) by (simp add: field_simps)
  then have "\<bar>p / r - q\<bar> = \<bar>p - a\<bar> / r" using assms(2) by (simp add: abs_divide)
  also have "\<dots> \<le> c / r" using assms(2,3) by (simp add: divide_right_mono)
  finally show ?thesis .
qed

lemma roundtrip_normal:
  assumes T: "pow2 (- 1023) \<le> q" and r: "74 \<le> r" "r \<le> 85"
  shows "\<bar>round_mag (round_mag (q * r) / r) - q\<bar> \<le> 3 * (q / 2 ^ 53)"
proof -
  define U where "U = (2::rat) ^ 53"
  define h where "h = pow2 (- 1076)"
  define w where "w = q / U"
  define a where "a = q * r"
  define p where "p = round_mag a"
  define x where "x = p / r"
  define d where "d = round_mag x"
  have U: "1 \<le> U" "0 < U" by (simp_all add: U_def)
  have UP: "U = pow2 53" unfolding U_def by (rule pow2_53)
  have hpos: "0 < h" by (simp add: h_def)
  have qpos: "0 < q" using T pow2_pos [of "- 1023"] by linarith
  have rpos: "0 < r" using r by simp
  have "pow2 (- 1023) / U \<le> q / U" using T U(2) by (simp add: divide_right_mono)
  then have hw: "h \<le> w" by (simp only: UP pow2_1023_53 h_def w_def)
  have wpos: "0 < w" using hw hpos by linarith
  have apos: "0 < a" using qpos rpos by (simp add: a_def)
  have aU: "a / U = w * r" by (simp add: a_def w_def)
  have "w * 74 \<le> w * r" using wpos r(1) by (simp add: mult_left_mono)
  with hw wpos have "2 * h \<le> w * r" by linarith
  then have m1: "max (a / U) (2 * h) = w * r" by (simp add: aU max_def)
  have "\<bar>round_mag a - a\<bar> \<le> max (a / U) (2 * h)"
    using round_mag_error [OF apos] by (simp only: U_def pow2_1075 h_def)
  then have ea: "\<bar>p - a\<bar> \<le> w * r" by (simp only: m1 p_def)
  have "\<bar>p / r - q\<bar> \<le> w * r / r" using a_def rpos ea by (rule div_rate_error)
  then have ex: "\<bar>x - q\<bar> \<le> w" using rpos by (simp add: x_def)
  have x0: "0 \<le> x" using round_mag_nonneg [of a] rpos by (simp add: x_def p_def)
  have "\<bar>round_mag x - x\<bar> \<le> max (x / U) (2 * h)"
    using round_mag_error0 [OF x0] by (simp only: U_def pow2_1075 h_def)
  then have ed: "\<bar>d - x\<bar> \<le> max (x / U) (2 * h)" by (simp only: d_def)
  have "x \<le> q + w" using ex by linarith
  then have "x / U \<le> (q + w) / U" using U(2) by (simp add: divide_right_mono)
  also have "(q + w) / U = w + w / U" by (simp add: w_def add_divide_distrib)
  also have "w / U \<le> w" using U wpos by (simp add: field_simps)
  finally have "x / U \<le> 2 * w" by linarith
  with hw have "max (x / U) (2 * h) \<le> 2 * w" by simp
  with ed have "\<bar>d - x\<bar> \<le> 2 * w" by linarith
  with ex have "\<bar>d - q\<bar> \<le> 3 * w" by linarith
  then show ?thesis by (simp only: d_def x_def p_def a_def w_def U_def)
qed

lemma roundtrip_subnormal:
  assumes q: "0 \<le> q" "q < pow2 (- 1023)" "round_mag q = q" and r: "74 \<le> r" "r \<le> 85"
  shows "round_mag (round_mag (q * r) / r) = q"
proof -
  define U where "U = (2::rat) ^ 53"
  define h where "h = pow2 (- 1076)"
  define w where "w = q / U"
  define a where "a = q * r"
  define p where "p = round_mag a"
  define x where "x = p / r"
  define d where "d = round_mag x"
  have U: "1 \<le> U" "0 < U" by (simp_all add: U_def)
  have UP: "U = pow2 53" unfolding U_def by (rule pow2_53)
  have hpos: "0 < h" by (simp add: h_def)
  have rpos: "0 < r" using r by simp
  have "q / U < pow2 (- 1023) / U" using q(2) U(2) by (simp add: divide_strict_right_mono)
  then have wh: "w < h" by (simp only: UP pow2_1023_53 h_def w_def)
  have w0: "0 \<le> w" using q(1) U(2) by (simp add: w_def)
  have a0: "0 \<le> a" using q(1) rpos by (simp add: a_def)
  have aU: "a / U = w * r" by (simp add: a_def w_def)
  have "\<bar>round_mag a - a\<bar> \<le> max (a / U) (2 * h)"
    using round_mag_error0 [OF a0] by (simp only: U_def pow2_1075 h_def)
  then have "\<bar>p - a\<bar> \<le> w * r \<or> \<bar>p - a\<bar> \<le> 2 * h"
    by (simp only: p_def aU le_max_iff_disj)
  then have ex: "\<bar>x - q\<bar> < h"
  proof
    assume "\<bar>p - a\<bar> \<le> w * r"
    with a_def rpos have "\<bar>p / r - q\<bar> \<le> w * r / r" by (rule div_rate_error)
    then have "\<bar>x - q\<bar> \<le> w" using rpos by (simp add: x_def)
    with wh show ?thesis by linarith
  next
    assume "\<bar>p - a\<bar> \<le> 2 * h"
    with a_def rpos have "\<bar>p / r - q\<bar> \<le> 2 * h / r" by (rule div_rate_error)
    moreover have "h * 74 \<le> h * r" using r(1) hpos by (simp add: mult_left_mono)
    then have "2 * h < h * r" using hpos by linarith
    then have "2 * h / r < h" using rpos by (simp add: pos_divide_less_eq)
    ultimately show ?thesis by (simp add: x_def)
  qed
  have x0: "0 \<le> x" using round_mag_nonneg [of a] rpos by (simp add: x_def p_def)
  have "\<bar>round_mag x - x\<bar> \<le> max (x / U) (2 * h)"
    using round_mag_error0 [OF x0] by (simp only: U_def pow2_1075 h_def)
  then have ed: "\<bar>d - x\<bar> \<le> max (x / U) (2 * h)" by (simp only: d_def)
  have "x \<le> q + h" using ex by linarith
  then have "x / U \<le> (q + h) / U" using U(2) by (simp add: divide_right_mono)
  also have "(q + h) / U = w + h / U" by (simp add: w_def add_divide_distrib)
  also have "h / U \<le> h" using U hpos by (simp add: field_simps)
  finally have "x / U \<le> 2 * h" using wh by linarith
  then have "max (x / U) (2 * h) \<le> 2 * h" by simp
  with ed have "\<bar>d - x\<bar> \<le> 2 * h" by linarith
  with ex have dq: "\<bar>d - q\<bar> < 4 * h" by linarith
  from round_mag_grid [of x] obtain m where m: "d = of_int m * pow2 (- 1074)"
    unfolding d_def by blast
  from round_mag_grid [of q] q(3) obtain n where n: "q = of_int n * pow2 (- 1074)"
    by auto
  have "d - q = of_int (m - n) * (4 * h)"
    by (simp add: m n pow2_1074 h_def algebra_simps)
  with dq have "\<bar>of_int (m - n) * (4 * h)\<bar> < 1 * (4 * h)" by simp
  then have "\<bar>(of_int (m - n) :: rat)\<bar> < 1" using hpos by (simp add: abs_mult)
  then have "\<bar>m - n\<bar> < 1" by (metis of_int_abs of_int_less_1_iff)
  then have "m = n" by simp
  with m n have "d = q" by simp
  then show ?thesis by (simp only: d_def x_def p_def a_def)
qed

lemma rel_close_same_sign:
  assumes "0 \<le> d" "0 \<le> q" "\<bar>d - q\<bar> \<le> q / 10 ^ 9"
  shows "rel_close (signed s d) (signed s q)"
proof -
  have "q / 10 ^ 9 \<le> max d q / 10 ^ 9" by (simp add: divide_right_mono)
  with assms(3) have "\<bar>d - q\<bar> \<le> max d q / 10 ^ 9" by linarith
  moreover have "\<bar>signed s d - signed s q\<bar> = \<bar>d - q\<bar>"
    by (simp add: signed_def abs_minus_commute)
  moreover have "\<bar>signed s d\<bar> = d" "\<bar>signed s q\<bar> = q" using assms(1,2) by (simp_all add: signed_def)
  ultimately show ?thesis by (simp only: rel_close_def)
qed

lemma mk_float_Finite_D:
  "mk_float s q = Finite s' p \<Longrightarrow> s' = s \<and> p = round_mag q \<and> p < pow2 1024"
  by (auto simp: mk_float_def Let_def split: if_splits)

lemma mk_float_finite: "round_mag q < pow2 1024 \<Longrightarrow> mk_float s q = Finite s (round_mag q)"
  by (simp add: mk_float_def Let_def)

lemma div_rate_finite:
  assumes "0 \<le> p" "p < pow2 1024" "74 \<le> r"
  shows "round_mag (p / r) < pow2 1024"
proof -
  define U where "U = (2::rat) ^ 53"
  define B where "B = pow2 1023"
  define x where "x = p / r"
  have U: "1 \<le> U" "0 < U" by (simp_all add: U_def)
  have B: "pow2 1024 = 2 * B" using pow2_Suc [of 1023] by (simp add: B_def)
  have Bpos: "0 < B" by (simp add: B_def)
  have eta: "pow2 (- 1075) \<le> B" unfolding B_def by (simp add: pow2_le_iff)
  have rpos: "0 < r" using assms(3) by simp
  have x0: "0 \<le> x" using assms(1) rpos by (simp add: x_def)
  have "x * 74 \<le> x * r" using x0 assms(3) by (simp add: mult_left_mono)
  also have "x * r = p" using rpos by (simp add: x_def)
  finally have x74: "x * 74 < 2 * B" using assms(2) B by linarith
  have "1 * x \<le> U * x" using U(1) x0 by (rule mult_right_mono)
  then have "x / U \<le> x" using U(2) by (simp add: pos_divide_le_eq mult.commute)
  moreover have "\<bar>round_mag x - x\<bar> \<le> max (x / U) (pow2 (- 1075))"
    using round_mag_error0 [OF x0] by (simp only: U_def)
  ultimately have "\<bar>round_mag x - x\<bar> \<le> max x B" using eta by (meson max.mono order_trans)
  moreover have "x < B" using x74 Bpos by linarith
  ultimately have "round_mag x < 2 * B" by (simp add: max_def)
  then show ?thesis by (simp only: B x_def)
qed

lemma roundtrip_float:
  assumes "is_b64 q" "74 \<le> r" "r \<le> 85" "fmul (Finite s q) (Finite False r) = Finite s' p"
  shows "isclose (fdiv (Finite s' p) (Finite False r)) (VFloat (Finite s q))"
proof -
  from assms(1) have q: "0 \<le> q" "round_mag q = q" by (simp_all add: is_b64_def)
  from assms(4) have "mk_float s (q * r) = Finite s' p" by simp
  from mk_float_Finite_D [OF this] have p: "s' = s" "p = round_mag (q * r)" "p < pow2 1024"
    by simp_all
  have p0: "0 \<le> p" unfolding p(2) by (rule round_mag_nonneg)
  define d where "d = round_mag (p / r)"
  have d0: "0 \<le> d" unfolding d_def by (rule round_mag_nonneg)
  have "d < pow2 1024" unfolding d_def using p0 p(3) assms(2) by (rule div_rate_finite)
  then have "mk_float s (p / r) = Finite s d" unfolding d_def by (rule mk_float_finite)
  moreover have "r \<noteq> 0" using assms(2) by simp
  ultimately have f: "fdiv (Finite s' p) (Finite False r) = Finite s d" by (simp add: p(1))
  have "\<bar>d - q\<bar> \<le> q / 10 ^ 9"
  proof (cases "pow2 (- 1023) \<le> q")
    case True
    from roundtrip_normal [OF True assms(2,3)] have "\<bar>d - q\<bar> \<le> 3 * (q / 2 ^ 53)"
      by (simp only: d_def p(2))
    also have "\<dots> \<le> q / 10 ^ 9" using q(1) by simp
    finally show ?thesis .
  next
    case False
    then have "q < pow2 (- 1023)" by simp
    from roundtrip_subnormal [OF q(1) this q(2) assms(2,3)] have "d = q"
      by (simp only: d_def p(2))
    then show ?thesis using q(1) by simp
  qed
  with d0 q(1) have "rel_close (signed s d) (signed s q)" by (rule rel_close_same_sign)
  then show ?thesis by (simp only: f isclose.simps)
qed

lemma roundtrip_int:
  assumes "float_of_int n = Finite s q" "74 \<le> r" "r \<le> 85"
    "fmul (Finite s q) (Finite False r) = Finite s' p"
  shows "isclose (fdiv (Finite s' p) (Finite False r)) (VInt n)"
proof -
  define N :: rat where "N = of_int \<bar>n\<bar>"
  define U where "U = (2::rat) ^ 53"
  have U: "1 \<le> U" "0 < U" by (simp_all add: U_def)
  from assms(1) have "mk_float (n < 0) N = Finite s q" by (simp add: float_of_int_def N_def)
  from mk_float_Finite_D [OF this] have sq: "s = (n < 0)" "q = round_mag N" by simp_all
  have sn: "signed s N = of_int n" by (auto simp: signed_def sq(1) N_def)
  from assms(4) have "mk_float s (q * r) = Finite s' p" by simp
  from mk_float_Finite_D [OF this] have p: "s' = s" "p = round_mag (q * r)" "p < pow2 1024"
    by simp_all
  have p0: "0 \<le> p" unfolding p(2) by (rule round_mag_nonneg)
  define d where "d = round_mag (p / r)"
  have d0: "0 \<le> d" unfolding d_def by (rule round_mag_nonneg)
  have "d < pow2 1024" unfolding d_def using p0 p(3) assms(2) by (rule div_rate_finite)
  then have "mk_float s (p / r) = Finite s d" unfolding d_def by (rule mk_float_finite)
  moreover have "r \<noteq> 0" using assms(2) by simp
  ultimately have f: "fdiv (Finite s' p) (Finite False r) = Finite s d" by (simp add: p(1))
  have N0: "0 \<le> N" by (simp add: N_def)
  have "\<bar>d - N\<bar> \<le> N / 10 ^ 9"
  proof (cases "n = 0")
    case True
    then have "N = 0" by (simp add: N_def)
    then have "d = 0" by (simp add: d_def p(2) sq(2))
    with \<open>N = 0\<close> show ?thesis by simp
  next
    case False
    then have "1 \<le> \<bar>n\<bar>" by simp
    then have N1: "1 \<le> N" unfolding N_def by (simp only: of_int_1_le_iff)
    define w where "w = N / U"
    have w: "0 < w" "w \<le> N" using N1 U by (simp_all add: w_def field_simps)
    have "pow2 (- 1075) \<le> pow2 (- 53)" by (simp add: pow2_le_iff)
    also have "pow2 (- 53) = 1 / U" by (simp add: pow2_def U_def)
    also have "\<dots> \<le> w" unfolding w_def using N1 U(2) by (simp add: divide_right_mono)
    finally have "max w (pow2 (- 1075)) = w" by (simp add: max_def)
    moreover have "\<bar>round_mag N - N\<bar> \<le> max w (pow2 (- 1075))"
      using round_mag_error0 [OF N0] by (simp only: w_def U_def)
    ultimately have eq: "\<bar>q - N\<bar> \<le> w" by (simp only: sq(2))
    have "w \<le> N / 2" unfolding w_def U_def using N0 by simp
    with eq N1 have "1 / 2 \<le> q" by linarith
    moreover have "pow2 (- 1023) \<le> pow2 (- 1)" by (simp add: pow2_le_iff)
    moreover have "pow2 (- 1) = 1 / 2" by (simp add: pow2_def)
    ultimately have T: "pow2 (- 1023) \<le> q" by linarith
    from roundtrip_normal [OF T assms(2,3)] have "\<bar>d - q\<bar> \<le> 3 * (q / U)"
      by (simp only: d_def p(2) U_def)
    moreover have "q \<le> N + w" using eq by linarith
    then have "q / U \<le> (N + w) / U" using U(2) by (simp add: divide_right_mono)
    moreover have "(N + w) / U = w + w / U" by (simp add: w_def add_divide_distrib)
    moreover have "w / U \<le> w" using U w(1) by (simp add: field_simps)
    ultimately have "\<bar>d - q\<bar> \<le> 6 * w" by linarith
    with eq have "\<bar>d - N\<bar> \<le> 7 * w" by linarith
    also have "7 * w \<le> N / 10 ^ 9" unfolding w_def U_def using N0 by simp
    finally show ?thesis .
  qed
  with d0 N0 have "rel_close (signed s d) (signed s N)" by (rule rel_close_same_sign)
  then show ?thesis by (simp only: f sn isclose.simps)
qed

lemma py_mul_roundtrip:
  assumes "py_mul v (Finite False r) = Inr y" "is_finite y" "b64_cell v" "74 \<le> r" "r \<le> 85"
  shows "isclose (fdiv y (Finite False r)) v"
proof (cases v)
  case (VStr s)
  with assms(1) show ?thesis by simp
next
  case (VFloat x)
  show ?thesis
  proof (cases x)
    case (Finite s q)
    with VFloat assms(1,2) obtain s' p where y: "y = Finite s' p"
      by (cases y) simp_all
    from VFloat Finite assms(3) have "is_b64 q" by simp
    moreover from VFloat Finite assms(1) y have "fmul (Finite s q) (Finite False r) = Finite s' p"
      by simp
    ultimately show ?thesis unfolding VFloat Finite y using assms(4,5)
      by (intro roundtrip_float) simp_all
  next
    case (Infinity s)
    with VFloat assms(1,2) show ?thesis by (auto split: if_splits)
  next
    case NaN
    with VFloat assms(1,2) show ?thesis by auto
  qed
next
  case (VInt n)
  show ?thesis
  proof (cases "float_of_int n")
    case (Finite s q)
    with VInt assms(1,2) obtain s' p where y: "y = Finite s' p"
      by (cases y) simp_all
    from VInt Finite assms(1) y have "fmul (Finite s q) (Finite False r) = Finite s' p"
      by simp
    with Finite show ?thesis unfolding VInt y using assms(4,5)
      by (intro roundtrip_int [where s = s and q = q]) simp_all
  next
    case (Infinity s)
    with VInt assms(1) show ?thesis by simp
  next
    case NaN
    with VInt assms(1,2) show ?thesis by simp
  qed
next
  case (VTime t)
  with assms(1) show ?thesis by simp
qed

lemma enrich_row_sales:
  assumes "enrich_row r = Inr e"
  shows "\<exists>t. ibr_rate e = get_ibr_rate t \<and> py_mul (sales_usd e) (ibr_rate e) = Inr (sales_inr e)"
proof (cases "order_date r")
  case (VTime t)
  with assms show ?thesis by (auto simp: enrich_row_def ibr_of_def split: sum.splits)
qed (use assms in \<open>simp_all add: enrich_row_def ibr_of_def\<close>)

lemma is_b64_numeral: "(numeral k :: int) < 2 ^ 53 \<Longrightarrow> is_b64 (numeral k)"
  using mk_float_Finite_D [of False "numeral k" False "numeral k"]
  by (simp add: is_b64_def)

lemma pow2_1023: "pow2 1023 = 2 * pow2 1022" "pow2 1024 = 4 * pow2 1022"
  using pow2_Suc [of 1022] pow2_Suc [of 1023] by simp_all

lemma is_b64_pow2_1023: "is_b64 (pow2 1023)"
  using round_mag_exact [of 1 1023] by (simp add: is_b64_def pow2_less_iff)

lemma overflow_1023: "mk_float s (pow2 1023 * (165 / 2)) = Infinity s"
proof -
  have "round_mag (of_int 165 * pow2 1022) = of_int 165 * pow2 1022"
    by (rule round_mag_exact) simp_all
  moreover have "pow2 1023 * (165 / 2) = of_int 165 * pow2 1022" by (simp add: pow2_1023)
  moreover have "pow2 1024 \<le> of_int 165 * pow2 1022" by (simp add: pow2_1023)
  ultimately show ?thesis by (simp only: mk_float_def Let_def if_True)
qed

lemma pipeline_scenario_overflow:
  "cleaning_pipeline py_float iso_to_datetime \<lparr>columns = header, rows = [overflow_row]\<rparr> =
     Inr [overflow_enriched]"
  using overflow_1023 [of False]
  by (simp add: table_eval py_float_eval get_ibr_rate_def rates_def lit_def overflow_row_def
      overflow_enriched_def scenario_def june15_def scenario_normalized_def scenario_enriched_def)

text \<open>
  C6. For every enriched row whose Sales_INR is finite, Sales_INR divided by IBR_Rate is
  within the relative tolerance \<open>1e-9\<close> of Sales_USD, a binary64 float or an integer.
  When the product overflows, Sales_INR is infinite, and so is the quotient, which is
  not close to the finite Sales_USD.
\<close>

theorem round_trip:
  assumes "cleaning_pipeline flt dt tbl = Inr out"
    and "e \<in> set out"
    and "b64_cell (sales_usd e)"
    and "is_finite (sales_inr e)"
  shows "isclose (fdiv (sales_inr e) (ibr_rate e)) (sales_usd e)"
proof -
  from pipeline_rows [OF assms(1)] assms(2) have "enrich_row (base e) = Inr e" by blast
  from enrich_row_sales [OF this] obtain t where
    t: "ibr_rate e = get_ibr_rate t" "py_mul (sales_usd e) (ibr_rate e) = Inr (sales_inr e)"
    by blast
  from rate_bounds [of t] obtain v where v: "get_ibr_rate t = Finite False v" "74 \<le> v" "v \<le> 85"
    by blast
  from t v(1) have k: "ibr_rate e = Finite False v"
    "py_mul (sales_usd e) (Finite False v) = Inr (sales_inr e)"
    by simp_all
  from k(2) assms(4,3) v(2,3) show ?thesis unfolding k(1) by (rule py_mul_roundtrip)
qed

theorem round_trip_witness:
  "cleaning_pipeline py_float iso_to_datetime \<lparr>columns = header, rows = [scenario]\<rparr> =
     Inr [scenario_enriched] \<and>
   b64_cell (sales_usd scenario_enriched) \<and>
   is_finite (sales_inr scenario_enriched) \<and>
   sales_inr scenario_enriched = Finite False 8250 \<and>
   ibr_rate scenario_enriched = Finite False (165 / 2) \<and>
   sales_usd scenario_enriched = VFloat (Finite False 100) \<and>
   isclose (fdiv (sales_inr scenario_enriched) (ibr_rate scenario_enriched)) (sales_usd scenario_enriched)"
  using round_trip [of py_float iso_to_datetime "\<lparr>columns = header, rows = [scenario]\<rparr>"
      "[scenario_enriched]" scenario_enriched]
  by (simp add: pipeline_scenario) (simp add: scenario_enriched_def is_b64_numeral)

theorem round_trip_counterexample:
  "cleaning_pipeline py_float iso_to_datetime \<lparr>columns = header, rows = [overflow_row]\<rparr> =
     Inr [overflow_enriched] \<and>
   sales_usd overflow_enriched = VFloat (Finite False (pow2 1023)) \<and>
   b64_cell (sales_usd overflow_enriched) \<and>
   ibr_rate overflow_enriched = Finite False (165 / 2) \<and>
   sales_inr overflow_enriched = Infinity False \<and>
   fdiv (sales_inr overflow_enriched) (ibr_rate overflow_enriched) = Infinity False \<and>
   \<not> isclose (fdiv (sales_inr overflow_enriched) (ibr_rate overflow_enriched))
        (sales_usd overflow_enriched)"
  by (simp add: pipeline_scenario_overflow)
     (simp add: overflow_enriched_def scenario_enriched_def is_b64_pow2_1023)

end
